theory Spec2Isabelle
  imports Main "HOL-Library.AList"
begin

section \<open>Errors\<close>

text \<open>
  Go \<^verbatim>\<open>error\<close> values that reach the program.  \<open>ErrPermission\<close> stands for
  every error on which \<^verbatim>\<open>os.IsPermission\<close> answers true; the decoder's two kinds of
  failure are kept apart from the operating system's.
\<close>

datatype error =
    ErrPermission
  | ErrNotExist
  | ErrSyntax
  | ErrUnmarshalType
  | ErrOther string

definition isPermission :: "error \<Rightarrow> bool" where
  "isPermission e = (e = ErrPermission)"

section \<open>The output config document\<close>

text \<open>
  What \<^verbatim>\<open>json.Unmarshal\<close> stores in an \<^verbatim>\<open>any\<close>: nil, bool, float64, string,
  \<^verbatim>\<open>[]any\<close> or \<^verbatim>\<open>map[string]any\<close>.  The patch never looks at a number, so the
  number type is left open as \<open>'n\<close>.  A Go map is a partial function from keys to
  values.
\<close>

datatype 'n json =
    JNull
  | JBool bool
  | JNumber 'n
  | JString string
  | JArray "'n json list"
  | JObject "string \<Rightarrow> 'n json option"

type_synonym 'n config = "string \<Rightarrow> 'n json option"

text \<open>
  \<^verbatim>\<open>v, ok := x.(map[string]any)\<close> on the result of a map read: \<open>ok\<close> holds exactly
  when the key is present and bound to an object.
\<close>

fun asObject :: "'n json option \<Rightarrow> 'n config option" where
  "asObject (Some (JObject m)) = Some m"
| "asObject _ = None"

text \<open>
  Lines 231--249 of \<^verbatim>\<open>patchBiomeConfig\<close>, on a non-nil \<^verbatim>\<open>config\<close>.  The first
  statement updates the formatter object in place or binds a fresh one; the second binds
  \<^verbatim>\<open>js["parser"]\<close> to a fresh object inside the existing \<^verbatim>\<open>javascript\<close> object, or
  binds a fresh \<^verbatim>\<open>javascript\<close>.
\<close>

definition patchFormatter :: "'n config \<Rightarrow> 'n config" where
  "patchFormatter config =
     (case asObject (config ''formatter'') of
        Some formatter \<Rightarrow>
          config(''formatter'' \<mapsto> JObject (formatter(''formatWithErrors'' \<mapsto> JBool True)))
      | None \<Rightarrow>
          config(''formatter'' \<mapsto> JObject [''formatWithErrors'' \<mapsto> JBool True]))"

definition patchJavascript :: "'n config \<Rightarrow> 'n config" where
  "patchJavascript config =
     (case asObject (config ''javascript'') of
        Some js \<Rightarrow>
          config(''javascript'' \<mapsto>
            JObject (js(''parser'' \<mapsto>
              JObject [''unsafeParameterDecoratorsEnabled'' \<mapsto> JBool True])))
      | None \<Rightarrow>
          config(''javascript'' \<mapsto>
            JObject [''parser'' \<mapsto>
              JObject [''unsafeParameterDecoratorsEnabled'' \<mapsto> JBool True]]))"

definition patchConfig :: "'n config \<Rightarrow> 'n config" where
  "patchConfig config = patchJavascript (patchFormatter config)"

section \<open>The scanner\<close>

subsection \<open>Paths and the file tree\<close>

text \<open>
  A cleaned absolute path is the list of its components, so \<^verbatim>\<open>filepath.Join(p, name)\<close>
  is \<open>p @ [name]\<close>, \<^verbatim>\<open>filepath.Dir\<close> drops the last component and
  \<^verbatim>\<open>filepath.Base\<close> returns it; both leave the root \<^verbatim>\<open>/\<close> (the empty list) alone.
\<close>

type_synonym path = "string list"

definition filepathDir :: "path \<Rightarrow> path" where
  "filepathDir p = butlast p"

definition base :: "path \<Rightarrow> string" where
  "base p = (if p = [] then ''/'' else last p)"

text \<open>
  What the walk can meet at a path: something that is not a directory (\<open>File\<close>: a
  regular file, a symbolic link, a device; \<^verbatim>\<open>Lstat\<close> does not follow links), a
  directory with its entries in the order \<^verbatim>\<open>readDirNames\<close> returns them, a directory
  whose listing fails, and a name whose \<^verbatim>\<open>Lstat\<close> fails.
\<close>

datatype tree =
    File
  | Dir "(string \<times> tree) list"
  | Unreadable error
  | NoStat error

fun isDirNode :: "tree \<Rightarrow> bool" where
  "isDirNode (Dir _) = True"
| "isDirNode (Unreadable _) = True"
| "isDirNode _ = False"

record fileInfo =
  Name :: string
  IsDir :: bool

subsection \<open>\<^verbatim>\<open>filepath.Walk\<close>\<close>

text \<open>
  The value a \<^verbatim>\<open>WalkFunc\<close> returns: nil, \<^verbatim>\<open>filepath.SkipDir\<close>, another error, or
  no value at all because the callback panicked.
\<close>

datatype walk_ret = RNil | RSkipDir | RErr error | RPanic

type_synonym 's walkFunc =
  "path \<Rightarrow> fileInfo option \<Rightarrow> error option \<Rightarrow> 's \<Rightarrow> walk_ret \<times> 's"

text \<open>
  \<^verbatim>\<open>walk\<close> of package \<^verbatim>\<open>path/filepath\<close>, with the state the callback closes over
  passed along.  \<^verbatim>\<open>walk\<close> is entered only after a successful \<^verbatim>\<open>Lstat\<close>; a name
  whose \<^verbatim>\<open>Lstat\<close> fails is reported to the callback by the caller, with a nil
  \<^verbatim>\<open>FileInfo\<close>, and only a return other than nil and \<^verbatim>\<open>SkipDir\<close> stops the loop.
  The equation of \<open>walk\<close> for \<open>NoStat\<close> repeats that call, so that the function is
  defined on every tree.
\<close>

fun walk :: "'s walkFunc \<Rightarrow> path \<Rightarrow> tree \<Rightarrow> 's \<Rightarrow> walk_ret \<times> 's"
and walkNames :: "'s walkFunc \<Rightarrow> path \<Rightarrow> (string \<times> tree) list \<Rightarrow> 's \<Rightarrow> walk_ret \<times> 's"
where
  "walk fn p File s = fn p (Some \<lparr>Name = base p, IsDir = False\<rparr>) None s"
| "walk fn p (Unreadable e) s = fn p (Some \<lparr>Name = base p, IsDir = True\<rparr>) (Some e) s"
| "walk fn p (Dir es) s =
     (case fn p (Some \<lparr>Name = base p, IsDir = True\<rparr>) None s of
        (RNil, s') \<Rightarrow> walkNames fn p es s'
      | (err1, s') \<Rightarrow> (err1, s'))"
| "walk fn p (NoStat e) s = fn p None (Some e) s"
| "walkNames fn p [] s = (RNil, s)"
| "walkNames fn p ((name, NoStat e) # es) s =
     (case fn (p @ [name]) None (Some e) s of
        (err, s') \<Rightarrow>
          if err \<noteq> RNil \<and> err \<noteq> RSkipDir then (err, s') else walkNames fn p es s')"
| "walkNames fn p ((name, t) # es) s =
     (case walk fn (p @ [name]) t s of
        (err, s') \<Rightarrow>
          if err \<noteq> RNil \<and> (\<not> isDirNode t \<or> err \<noteq> RSkipDir) then (err, s')
          else walkNames fn p es s')"

definition Walk :: "'s walkFunc \<Rightarrow> path \<Rightarrow> tree \<Rightarrow> 's \<Rightarrow> walk_ret \<times> 's" where
  "Walk fn root t s =
     (case (case t of NoStat e \<Rightarrow> fn root None (Some e) s | _ \<Rightarrow> walk fn root t s) of
        (err, s') \<Rightarrow> if err = RSkipDir then (RNil, s') else (err, s'))"

subsection \<open>\<^verbatim>\<open>findConfigs\<close>\<close>

definition eslintConfigFiles :: "string list" where
  "eslintConfigFiles =
     [''.eslintrc.json'', ''.eslintrc.js'', ''.eslintrc.cjs'', ''.eslintrc.yaml'',
      ''.eslintrc.yml'', ''.eslintrc'', ''eslint.config.js'', ''eslint.config.mjs'',
      ''eslint.config.cjs'']"

definition prettierConfigFiles :: "string list" where
  "prettierConfigFiles =
     [''.prettierrc'', ''.prettierrc.json'', ''.prettierrc.yml'', ''.prettierrc.yaml'',
      ''.prettierrc.json5'', ''.prettierrc.js'', ''.prettierrc.cjs'', ''.prettierrc.mjs'',
      ''.prettierrc.toml'', ''prettier.config.js'', ''prettier.config.cjs'',
      ''prettier.config.mjs'']"

record configLocation =
  dir :: path
  hasEslint :: bool
  hasPrettier :: bool

text \<open>
  \<^verbatim>\<open>map[string]*configLocation\<close>, as an association list with one entry per key, in
  the order the keys were first bound; \<open>map_of\<close> reads it.  The map is not nil (it
  comes from \<^verbatim>\<open>make\<close>) and no nil pointer is ever stored in it.
\<close>

type_synonym locations = "(path \<times> configLocation) list"

text \<open>
  \<^verbatim>\<open>if locations[dir] == nil { locations[dir] = &configLocation{dir: dir} }\<close>
\<close>

definition ensureLocation :: "path \<Rightarrow> locations \<Rightarrow> locations" where
  "ensureLocation d locs =
     (if map_of locs d = None
      then AList.update d \<lparr>dir = d, hasEslint = False, hasPrettier = False\<rparr> locs
      else locs)"

text \<open>The skip test of the callback, written in the source as a chain of \<^verbatim>\<open>||\<close>.\<close>

definition skippedName :: "string \<Rightarrow> bool" where
  "skippedName name \<longleftrightarrow>
     name = ''node_modules'' \<or> name = ''.git'' \<or> name = ''dist'' \<or> name = ''build''
     \<or> name = ''.devops''"

text \<open>
  The function literal passed to \<^verbatim>\<open>filepath.Walk\<close>.  With a nil error the source
  reads \<^verbatim>\<open>info\<close> at once; a nil \<^verbatim>\<open>info\<close> there would be a nil dereference.
\<close>

definition walkFn :: "locations walkFunc" where
  "walkFn path info err locs =
     (case err of
        Some e \<Rightarrow> if isPermission e then (RSkipDir, locs) else (RErr e, locs)
      | None \<Rightarrow>
          (case info of
             None \<Rightarrow> (RPanic, locs)
           | Some i \<Rightarrow>
               if IsDir i then
                 (if skippedName (Name i) then (RSkipDir, locs) else (RNil, locs))
               else
                 (let fileName = Name i;
                      d = filepathDir path;
                      locs1 =
                        (if fileName \<in> set eslintConfigFiles
                         then AList.map_entry d (\<lambda>l. l\<lparr>hasEslint := True\<rparr>)
                                (ensureLocation d locs)
                         else locs);
                      locs2 =
                        (if fileName \<in> set prettierConfigFiles
                         then AList.map_entry d (\<lambda>l. l\<lparr>hasPrettier := True\<rparr>)
                                (ensureLocation d locs1)
                         else locs1)
                  in (RNil, locs2))))"

definition findConfigs :: "path \<Rightarrow> tree \<Rightarrow> locations \<times> walk_ret" where
  "findConfigs root t = (case Walk walkFn root t [] of (err, locs) \<Rightarrow> (locs, err))"

section \<open>The operating system\<close>

text \<open>
  Lines of standard output, one constructor per \<^verbatim>\<open>Println\<close>/\<^verbatim>\<open>Printf\<close> of
  \<^verbatim>\<open>main\<close>, with the values its format string is filled with.
\<close>

datatype message =
    MsgUsage
  | MsgResolveError error
  | MsgScanError walk_ret
  | MsgNoConfigs
  | MsgFound nat
  | MsgLocation path "string list"
  | MsgDryRunWould path
  | MsgDryRunEslint
  | MsgDryRunPrettier
  | MsgMigrating path
  | MsgCreateError error
  | MsgEslintError error
  | MsgEslintMigrated
  | MsgPrettierError error
  | MsgPrettierMigrated
  | MsgPatchError error
  | MsgCreated path
  | MsgDone

text \<open>
  Every call that leaves the process after the scan, in the order made:
  \<^verbatim>\<open>fmt.Print*\<close>, \<^verbatim>\<open>os.Stat\<close>, \<^verbatim>\<open>os.ReadFile\<close>, \<^verbatim>\<open>os.WriteFile\<close> with the bytes
  written, \<^verbatim>\<open>os.Remove\<close>, and \<^verbatim>\<open>cmd.Run\<close> with the argument vector and the working
  directory.
\<close>

datatype event =
    Print message
  | Stat path
  | ReadFile path
  | WriteFile path string
  | Remove path
  | Exec "string list" path

text \<open>
  The file system is a value of an arbitrary type \<open>'fs\<close>; the log records the calls
  made on it.
\<close>

record 'fs world =
  fs :: 'fs
  log :: "event list"

text \<open>
  How the surroundings answer each call.  Nothing is assumed of them: a write may fail
  and still change the file system, a subprocess may change anything, the decoder and
  encoder are those of \<^verbatim>\<open>encoding/json\<close>.  \<open>envRange i\<close> is the order in which the
  \<open>i\<close>-th \<^verbatim>\<open>range\<close> statement of \<^verbatim>\<open>main\<close> goes through the map, which Go leaves
  open.
\<close>

record ('fs, 'n) env =
  envAbs :: "string \<Rightarrow> error + path"
  envTree :: "'fs \<Rightarrow> path \<Rightarrow> tree"
  envRange :: "nat \<Rightarrow> locations \<Rightarrow> locations"
  envStat :: "'fs \<Rightarrow> path \<Rightarrow> error option"
  envReadFile :: "'fs \<Rightarrow> path \<Rightarrow> error + string"
  envWriteFile :: "'fs \<Rightarrow> path \<Rightarrow> string \<Rightarrow> error option \<times> 'fs"
  envRemove :: "'fs \<Rightarrow> path \<Rightarrow> 'fs"
  envRun :: "'fs \<Rightarrow> string list \<Rightarrow> path \<Rightarrow> error option \<times> 'fs"
  envDecode :: "string \<Rightarrow> error + 'n json"
  envEncode :: "'n config \<Rightarrow> error + string"

definition emit :: "event \<Rightarrow> 'fs world \<Rightarrow> 'fs world" where
  "emit ev w = w\<lparr>log := log w @ [ev]\<rparr>"

definition println :: "message \<Rightarrow> 'fs world \<Rightarrow> 'fs world" where
  "println m w = emit (Print m) w"

definition osStat :: "('fs, 'n) env \<Rightarrow> path \<Rightarrow> 'fs world \<Rightarrow> error option \<times> 'fs world" where
  "osStat env p w = (envStat env (fs w) p, emit (Stat p) w)"

definition osReadFile :: "('fs, 'n) env \<Rightarrow> path \<Rightarrow> 'fs world \<Rightarrow> (error + string) \<times> 'fs world" where
  "osReadFile env p w = (envReadFile env (fs w) p, emit (ReadFile p) w)"

definition osWriteFile ::
  "('fs, 'n) env \<Rightarrow> path \<Rightarrow> string \<Rightarrow> 'fs world \<Rightarrow> error option \<times> 'fs world" where
  "osWriteFile env p data w =
     (case envWriteFile env (fs w) p data of
        (err, fs') \<Rightarrow> (err, emit (WriteFile p data) (w\<lparr>fs := fs'\<rparr>)))"

definition osRemove :: "('fs, 'n) env \<Rightarrow> path \<Rightarrow> 'fs world \<Rightarrow> 'fs world" where
  "osRemove env p w = emit (Remove p) (w\<lparr>fs := envRemove env (fs w) p\<rparr>)"

definition cmdRun ::
  "('fs, 'n) env \<Rightarrow> string list \<Rightarrow> path \<Rightarrow> 'fs world \<Rightarrow> error option \<times> 'fs world" where
  "cmdRun env argv d w =
     (case envRun env (fs w) argv d of
        (err, fs') \<Rightarrow> (err, emit (Exec argv d) (w\<lparr>fs := fs'\<rparr>)))"

section \<open>The patcher\<close>

text \<open>
  \<^verbatim>\<open>json.Unmarshal(data, &config)\<close> with \<^verbatim>\<open>config\<close> a nil \<^verbatim>\<open>map[string]any\<close>: an
  object fills a new map, the literal \<^verbatim>\<open>null\<close> leaves the map nil and is no error,
  any other value is an \<^verbatim>\<open>UnmarshalTypeError\<close>.  The nil map is \<open>None\<close>.
\<close>

definition unmarshalConfig ::
  "(string \<Rightarrow> error + 'n json) \<Rightarrow> string \<Rightarrow> error + 'n config option" where
  "unmarshalConfig decode data =
     (case decode data of
        Inl err \<Rightarrow> Inl err
      | Inr JNull \<Rightarrow> Inr None
      | Inr (JObject m) \<Rightarrow> Inr (Some m)
      | Inr _ \<Rightarrow> Inl ErrUnmarshalType)"

text \<open>
  What a call of \<^verbatim>\<open>patchBiomeConfig\<close> comes to: it returns an error value (nil or
  not), or it panics.  Reading a nil map is allowed in Go and finds no key, so the first
  type assertion fails and the \<^verbatim>\<open>else\<close> branch assigns to an entry of the nil map,
  which panics.
\<close>

datatype status = Returned "error option" | Panicked

definition patchBiomeConfig ::
  "('fs, 'n) env \<Rightarrow> path \<Rightarrow> 'fs world \<Rightarrow> status \<times> 'fs world" where
  "patchBiomeConfig env p w =
     (case osReadFile env p w of
        (Inl err, w1) \<Rightarrow> (Returned (Some err), w1)
      | (Inr data, w1) \<Rightarrow>
          (case unmarshalConfig (envDecode env) data of
             Inl err \<Rightarrow> (Returned (Some err), w1)
           | Inr None \<Rightarrow> (Panicked, w1)
           | Inr (Some config) \<Rightarrow>
               (case envEncode env (patchConfig config) of
                  Inl err \<Rightarrow> (Returned (Some err), w1)
                | Inr output \<Rightarrow>
                    (case osWriteFile env p output w1 of
                       (err, w2) \<Rightarrow> (Returned err, w2)))))"

section \<open>The migrator\<close>

definition minimalBiomeConfig :: string where
  \<open>minimalBiomeConfig =
     ''{\<newline>  "linter": {\<newline>    "enabled": true,\<newline>    "rules": {\<newline>      "recommended": true\<newline>    }\<newline>  }\<newline>}\<newline>''\<close>

definition migrateEslintConfig ::
  "('fs, 'n) env \<Rightarrow> path \<Rightarrow> 'fs world \<Rightarrow> error option \<times> 'fs world" where
  "migrateEslintConfig env d w =
     cmdRun env [''npx'', ''@biomejs/biome'', ''migrate'', ''eslint'', ''--write''] d w"

definition migratePrettierConfig ::
  "('fs, 'n) env \<Rightarrow> path \<Rightarrow> 'fs world \<Rightarrow> error option \<times> 'fs world" where
  "migratePrettierConfig env d w =
     cmdRun env [''npx'', ''@biomejs/biome'', ''migrate'', ''prettier'', ''--write''] d w"

text \<open>
  The body of the second loop of \<^verbatim>\<open>main\<close> when \<^verbatim>\<open>-dry-run\<close> is not set, for one
  entry \<^verbatim>\<open>dir, loc\<close> of the map.  The result says whether the process panicked in
  this iteration; every \<^verbatim>\<open>continue\<close> and the normal end of the body return \<open>False\<close>.
\<close>

definition runEslint ::
  "('fs, 'n) env \<Rightarrow> path \<Rightarrow> configLocation \<Rightarrow> 'fs world \<Rightarrow> bool \<times> 'fs world" where
  "runEslint env d loc w =
     (if hasEslint loc then
        (case migrateEslintConfig env d w of
           (Some err, w') \<Rightarrow> (True, println (MsgEslintError err) w')
         | (None, w') \<Rightarrow> (False, println MsgEslintMigrated w'))
      else (False, w))"

definition runPrettier ::
  "('fs, 'n) env \<Rightarrow> path \<Rightarrow> configLocation \<Rightarrow> 'fs world \<Rightarrow> bool \<times> 'fs world" where
  "runPrettier env d loc w =
     (if hasPrettier loc then
        (case migratePrettierConfig env d w of
           (Some err, w') \<Rightarrow> (True, println (MsgPrettierError err) w')
         | (None, w') \<Rightarrow> (False, println MsgPrettierMigrated w'))
      else (False, w))"

definition patchAndReport ::
  "('fs, 'n) env \<Rightarrow> path \<Rightarrow> 'fs world \<Rightarrow> bool \<times> 'fs world" where
  "patchAndReport env biomeConfigPath w =
     (case patchBiomeConfig env biomeConfigPath w of
        (Panicked, w') \<Rightarrow> (True, w')
      | (Returned (Some err), w') \<Rightarrow>
          (False, println (MsgCreated biomeConfigPath) (println (MsgPatchError err) w'))
      | (Returned None, w') \<Rightarrow> (False, println (MsgCreated biomeConfigPath) w'))"

definition migrateDir ::
  "('fs, 'n) env \<Rightarrow> path \<Rightarrow> configLocation \<Rightarrow> 'fs world \<Rightarrow> bool \<times> 'fs world" where
  "migrateDir env d loc w =
     (let w1 = println (MsgMigrating d) w;
          biomeConfigPath = d @ [''biome.json''];
          (statErr, w2) = osStat env biomeConfigPath w1;
          existingBiome = (statErr = None);
          (createErr, w3) =
            (if \<not> existingBiome then osWriteFile env biomeConfigPath minimalBiomeConfig w2
             else (None, w2))
      in case createErr of
           Some err \<Rightarrow> (False, println (MsgCreateError err) w3)
         | None \<Rightarrow>
             (let (eslintFailed, w4) = runEslint env d loc w3;
                  (prettierFailed, w5) = runPrettier env d loc w4;
                  migrationFailed = (eslintFailed \<or> prettierFailed)
              in if migrationFailed \<and> \<not> existingBiome \<and> \<not> hasEslint loc \<and> \<not> hasPrettier loc
                 then (False, osRemove env biomeConfigPath w5)
                 else patchAndReport env biomeConfigPath w5))"

text \<open>
  The same body as the specification describes it: once the output file exists, the
  migrations are attempted and the patcher is called whatever they returned; nothing is
  ever removed.
\<close>

definition migrateDirAlwaysPatch ::
  "('fs, 'n) env \<Rightarrow> path \<Rightarrow> configLocation \<Rightarrow> 'fs world \<Rightarrow> bool \<times> 'fs world" where
  "migrateDirAlwaysPatch env d loc w =
     (let w1 = println (MsgMigrating d) w;
          biomeConfigPath = d @ [''biome.json''];
          (statErr, w2) = osStat env biomeConfigPath w1;
          (createErr, w3) =
            (if statErr \<noteq> None then osWriteFile env biomeConfigPath minimalBiomeConfig w2
             else (None, w2))
      in case createErr of
           Some err \<Rightarrow> (False, println (MsgCreateError err) w3)
         | None \<Rightarrow>
             (let (eslintFailed, w4) = runEslint env d loc w3;
                  (prettierFailed, w5) = runPrettier env d loc w4
              in patchAndReport env biomeConfigPath w5))"

section \<open>\<^verbatim>\<open>main\<close>\<close>

text \<open>The first loop: one line per location, with the families found there.\<close>

definition flagNames :: "configLocation \<Rightarrow> string list" where
  "flagNames loc =
     (if hasEslint loc then [''eslint''] else []) @
     (if hasPrettier loc then [''prettier''] else [])"

fun reportLocations :: "locations \<Rightarrow> 'fs world \<Rightarrow> 'fs world" where
  "reportLocations [] w = w"
| "reportLocations ((d, loc) # rest) w =
     reportLocations rest (println (MsgLocation d (flagNames loc)) w)"

definition dryRunDir :: "path \<Rightarrow> configLocation \<Rightarrow> 'fs world \<Rightarrow> 'fs world" where
  "dryRunDir d loc w =
     (let w1 = println (MsgDryRunWould d) w;
          w2 = (if hasEslint loc then println MsgDryRunEslint w1 else w1);
          w3 = (if hasPrettier loc then println MsgDryRunPrettier w2 else w2)
      in w3)"

text \<open>The second loop; a panic ends it, and the process with it.\<close>

fun migrateAll ::
  "('fs, 'n) env \<Rightarrow> bool \<Rightarrow> locations \<Rightarrow> 'fs world \<Rightarrow> bool \<times> 'fs world" where
  "migrateAll env dryRun [] w = (False, w)"
| "migrateAll env dryRun ((d, loc) # rest) w =
     (if dryRun then migrateAll env dryRun rest (dryRunDir d loc w)
      else
        (case migrateDir env d loc w of
           (True, w') \<Rightarrow> (True, w')
         | (False, w') \<Rightarrow> migrateAll env dryRun rest w'))"

text \<open>
  How the process ends: \<^verbatim>\<open>os.Exit(1)\<close>, a return from \<^verbatim>\<open>main\<close> (status 0), or an
  unrecovered panic, after which the Go runtime ends the process with status 2.
\<close>

datatype ending = Exit nat | Panic

fun exitCode :: "ending \<Rightarrow> nat" where
  "exitCode (Exit n) = n"
| "exitCode Panic = 2"

text \<open>
  \<^verbatim>\<open>main\<close> after \<^verbatim>\<open>flag.Parse\<close>: \<open>inputDir\<close> and \<open>dryRun\<close> are the parsed values of
  \<^verbatim>\<open>-input\<close> and \<^verbatim>\<open>-dry-run\<close>.  A panic inside the walk would leave through
  \<^verbatim>\<open>findConfigs\<close>; any other non-nil error of the scan is printed before
  \<^verbatim>\<open>os.Exit(1)\<close>.
\<close>

definition main :: "('fs, 'n) env \<Rightarrow> string \<Rightarrow> bool \<Rightarrow> 'fs world \<Rightarrow> ending \<times> 'fs world" where
  "main env inputDir dryRun w =
     (if inputDir = [] then (Exit 1, println MsgUsage w)
      else
        (case envAbs env inputDir of
           Inl err \<Rightarrow> (Exit 1, println (MsgResolveError err) w)
         | Inr absInputDir \<Rightarrow>
             (case findConfigs absInputDir (envTree env (fs w) absInputDir) of
                (locs, RPanic) \<Rightarrow> (Panic, w)
              | (locs, RNil) \<Rightarrow>
                  (if length locs = 0 then (Exit 0, println MsgNoConfigs w)
                   else
                     (let w1 = println (MsgFound (length locs)) w;
                          w2 = reportLocations (envRange env 0 locs) w1
                      in case migrateAll env dryRun (envRange env 1 locs) w2 of
                           (True, w3) \<Rightarrow> (Panic, w3)
                         | (False, w3) \<Rightarrow> (Exit 0, println MsgDone w3)))
              | (locs, err) \<Rightarrow> (Exit 1, println (MsgScanError err) w))))"

section \<open>Sample inputs\<close>

text \<open>
  A project tree: \<^verbatim>\<open>a\<close> holds an ESLint config and a \<^verbatim>\<open>node_modules\<close> directory with
  another one, \<^verbatim>\<open>b\<close> holds a Prettier config, \<^verbatim>\<open>c\<close> holds one of each family, and
  \<^verbatim>\<open>locked\<close> cannot be listed.
\<close>

definition sampleTree :: tree where
  "sampleTree =
     Dir [(''a'', Dir [(''.eslintrc.json'', File),
                       (''node_modules'', Dir [(''.eslintrc.json'', File)])]),
          (''b'', Dir [(''prettier.config.js'', File)]),
          (''c'', Dir [(''.prettierrc'', File), (''eslint.config.js'', File)]),
          (''locked'', Unreadable ErrPermission)]"

text \<open>The same tree with a directory whose listing fails for another reason.\<close>

definition brokenTree :: tree where
  "brokenTree =
     Dir [(''a'', Dir [(''.eslintrc.json'', File)]),
          (''bad'', Unreadable (ErrOther ''input/output error'')),
          (''c'', Dir [(''.prettierrc'', File)])]"

text \<open>
  Surroundings in which files are a map from paths to contents, every write succeeds,
  the migration tool fails without touching anything, and the decoder knows two
  documents: the literal \<^verbatim>\<open>null\<close> and the minimal config.
\<close>

definition sampleDecode :: "string \<Rightarrow> error + int json" where
  "sampleDecode data =
     (if data = ''null'' then Inr JNull
      else if data = minimalBiomeConfig then
        Inr (JObject [''linter'' \<mapsto>
               JObject [''enabled'' \<mapsto> JBool True,
                        ''rules'' \<mapsto> JObject [''recommended'' \<mapsto> JBool True]]])
      else Inl ErrSyntax)"

definition sampleEnv :: "tree \<Rightarrow> (path \<Rightarrow> string option, int) env" where
  "sampleEnv t =
     \<lparr>envAbs = (\<lambda>inputDir. Inr [''home'', inputDir]),
      envTree = (\<lambda>files root. t),
      envRange = (\<lambda>i locs. locs),
      envStat = (\<lambda>files p. if files p = None then Some ErrNotExist else None),
      envReadFile = (\<lambda>files p. case files p of None \<Rightarrow> Inl ErrNotExist | Some data \<Rightarrow> Inr data),
      envWriteFile = (\<lambda>files p data. (None, files(p \<mapsto> data))),
      envRemove = (\<lambda>files p. files(p := None)),
      envRun = (\<lambda>files argv d. (Some (ErrOther ''exit status 1''), files)),
      envDecode = sampleDecode,
      envEncode = (\<lambda>config. Inr ''(patched)'')\<rparr>"

definition emptyWorld :: "(path \<Rightarrow> string option) world" where
  "emptyWorld = \<lparr>fs = Map.empty, log = []\<rparr>"

text \<open>A world in which \<^verbatim>\<open>/home/proj/a/biome.json\<close> exists and holds \<^verbatim>\<open>null\<close>.\<close>

definition nullBiomeWorld :: "(path \<Rightarrow> string option) world" where
  "nullBiomeWorld = \<lparr>fs = [[''home'', ''proj'', ''a'', ''biome.json''] \<mapsto> ''null''], log = []\<rparr>"

section \<open>Notions the scanner's properties are stated with\<close>

text \<open>
  The callback with a record of its calls: \<open>traced fn\<close> does what \<open>fn\<close> does and
  appends the path it was called with to a list kept beside the state.
\<close>

definition traced :: "'s walkFunc \<Rightarrow> ('s \<times> path list) walkFunc" where
  "traced fn p info err sv =
     (case fn p info err (fst sv) of (r, s') \<Rightarrow> (r, (s', snd sv @ [p])))"

definition visitedPaths :: "path \<Rightarrow> tree \<Rightarrow> path list" where
  "visitedPaths root t = snd (snd (Walk (traced walkFn) root t ([], [])))"

text \<open>
  The errors other than permission errors that a walk meets, in the order of the walk:
  \<open>name\<close> is the base name of the node.  Nothing below a directory with a skipped
  name is looked at.
\<close>

fun scanErrors :: "string \<Rightarrow> tree \<Rightarrow> error list" where
  "scanErrors name File = []"
| "scanErrors name (Unreadable e) = (if isPermission e then [] else [e])"
| "scanErrors name (NoStat e) = (if isPermission e then [] else [e])"
| "scanErrors name (Dir es) =
     (if skippedName name then []
      else concat (map (\<lambda>x. scanErrors (fst x) (snd x)) es))"

text \<open>The node a relative path leads to, and trees in which a directory has no name twice.\<close>

fun subtreeAt :: "tree \<Rightarrow> string list \<Rightarrow> tree option" where
  "subtreeAt t [] = Some t"
| "subtreeAt (Dir es) (n # ns) =
     (case map_of es n of None \<Rightarrow> None | Some c \<Rightarrow> subtreeAt c ns)"
| "subtreeAt _ (n # ns) = None"

fun distinctNames :: "tree \<Rightarrow> bool" where
  "distinctNames (Dir es) = (distinct (map fst es) \<and> (\<forall>x \<in> set es. distinctNames (snd x)))"
| "distinctNames _ = True"

text \<open>
  Whether a directory with entries \<open>es\<close> holds a file (not a directory) named in
  \<open>names\<close>, and the record the specification expects for the directory \<open>d\<close>.
\<close>

definition holdsFileFrom :: "string list \<Rightarrow> (string \<times> tree) list \<Rightarrow> bool" where
  "holdsFileFrom names es = list_ex (\<lambda>n. (n, File) \<in> set es) names"

definition expectedLocation :: "path \<Rightarrow> (string \<times> tree) list \<Rightarrow> configLocation option" where
  "expectedLocation d es =
     (if holdsFileFrom eslintConfigFiles es \<or> holdsFileFrom prettierConfigFiles es
      then Some \<lparr>dir = d,
                 hasEslint = holdsFileFrom eslintConfigFiles es,
                 hasPrettier = holdsFileFrom prettierConfigFiles es\<rparr>
      else None)"

text \<open>What a walk returns, given the errors it meets.\<close>

definition walkResult :: "string \<Rightarrow> tree \<Rightarrow> walk_ret" where
  "walkResult name t =
     (case t of
        File \<Rightarrow> RNil
      | Dir es \<Rightarrow>
          if skippedName name then RSkipDir
          else (case scanErrors name t of [] \<Rightarrow> RNil | e # _ \<Rightarrow> RErr e)
      | Unreadable e \<Rightarrow> if isPermission e then RSkipDir else RErr e
      | NoStat e \<Rightarrow> if isPermission e then RSkipDir else RErr e)"

text \<open>
  \<open>unskippedUpTo name ns\<close>: starting at a node named \<open>name\<close> and going down the
  relative path \<open>ns\<close>, no node met has a skipped name, the last one included;
  \<open>unskippedAbove\<close> leaves the last one out.
\<close>

fun unskippedUpTo :: "string \<Rightarrow> string list \<Rightarrow> bool" where
  "unskippedUpTo name [] = (\<not> skippedName name)"
| "unskippedUpTo name (n # ns) = (\<not> skippedName name \<and> unskippedUpTo n ns)"

fun unskippedAbove :: "string \<Rightarrow> string list \<Rightarrow> bool" where
  "unskippedAbove name [] = True"
| "unskippedAbove name (n # ns) = (\<not> skippedName name \<and> unskippedAbove n ns)"

text \<open>
  What one file named \<open>name\<close> does to the record \<open>r\<close> of its directory \<open>d\<close>, and
  what all the files among the entries \<open>es\<close> do to it together.
\<close>

definition freshLocation :: "path \<Rightarrow> configLocation" where
  "freshLocation d = \<lparr>dir = d, hasEslint = False, hasPrettier = False\<rparr>"

definition markFile :: "path \<Rightarrow> string \<Rightarrow> configLocation option \<Rightarrow> configLocation option" where
  "markFile d name r =
     (let r1 = (if name \<in> set eslintConfigFiles
                then Some ((case r of None \<Rightarrow> freshLocation d | Some l \<Rightarrow> l)\<lparr>hasEslint := True\<rparr>)
                else r)
      in if name \<in> set prettierConfigFiles
         then Some ((case r1 of None \<Rightarrow> freshLocation d | Some l \<Rightarrow> l)\<lparr>hasPrettier := True\<rparr>)
         else r1)"

definition merged ::
  "path \<Rightarrow> (string \<times> tree) list \<Rightarrow> configLocation option \<Rightarrow> configLocation option" where
  "merged d es r =
     (case r of
        None \<Rightarrow> expectedLocation d es
      | Some l \<Rightarrow>
          Some (l\<lparr>hasEslint := hasEslint l \<or> holdsFileFrom eslintConfigFiles es,
                  hasPrettier := hasPrettier l \<or> holdsFileFrom prettierConfigFiles es\<rparr>))"

section \<open>Properties of the patch\<close>

lemma asObject_Some_iff: "asObject x = Some m \<longleftrightarrow> x = Some (JObject m)"
  by (cases x rule: asObject.cases) auto

lemma asObject_None_iff: "asObject x = None \<longleftrightarrow> (\<forall>m. x \<noteq> Some (JObject m))"
  by (cases x rule: asObject.cases) auto

lemma patchJavascript_other: "k \<noteq> ''javascript'' \<Longrightarrow> patchJavascript config k = config k"
  by (simp add: patchJavascript_def split: option.splits)

lemma patchFormatter_other: "k \<noteq> ''formatter'' \<Longrightarrow> patchFormatter config k = config k"
  by (simp add: patchFormatter_def split: option.splits)

lemma patchFormatter_formatter:
  "patchFormatter config ''formatter'' =
     Some (JObject (case asObject (config ''formatter'') of
                      Some fm \<Rightarrow> fm(''formatWithErrors'' \<mapsto> JBool True)
                    | None \<Rightarrow> [''formatWithErrors'' \<mapsto> JBool True]))"
  by (simp add: patchFormatter_def split: option.splits)

lemma patchJavascript_javascript:
  "patchJavascript config ''javascript'' =
     Some (JObject (case asObject (config ''javascript'') of
                      Some js \<Rightarrow>
                        js(''parser'' \<mapsto>
                          JObject [''unsafeParameterDecoratorsEnabled'' \<mapsto> JBool True])
                    | None \<Rightarrow>
                        [''parser'' \<mapsto>
                          JObject [''unsafeParameterDecoratorsEnabled'' \<mapsto> JBool True]]))"
  by (simp add: patchJavascript_def split: option.splits)

lemma patchFormatter_idem: "patchFormatter (patchFormatter config) = patchFormatter config"
  by (auto simp: patchFormatter_def fun_eq_iff split: option.splits)

lemma patchJavascript_idem: "patchJavascript (patchJavascript config) = patchJavascript config"
  by (auto simp: patchJavascript_def fun_eq_iff split: option.splits)

lemma patch_commute:
  "patchFormatter (patchJavascript config) = patchJavascript (patchFormatter config)"
  by (auto simp: patchFormatter_def patchJavascript_def fun_eq_iff split: option.splits)

text \<open>
  Claim C2.  After the patch the \<^verbatim>\<open>formatter\<close> key is bound to an object in which
  \<^verbatim>\<open>formatWithErrors\<close> is true.  When \<^verbatim>\<open>formatter\<close> was bound to an object, the new
  object is the old one with that single key set, so every other key under
  \<^verbatim>\<open>formatter\<close> reads as before; when \<^verbatim>\<open>formatter\<close> was absent or bound to anything
  else, the new object holds that key and no other.
\<close>

theorem patchConfig_formatter_section:
  "(\<forall>fm. config ''formatter'' = Some (JObject fm) \<longrightarrow>
      patchConfig config ''formatter'' =
        Some (JObject (fm(''formatWithErrors'' \<mapsto> JBool True)))) \<and>
   ((\<forall>fm. config ''formatter'' \<noteq> Some (JObject fm)) \<longrightarrow>
      patchConfig config ''formatter'' =
        Some (JObject [''formatWithErrors'' \<mapsto> JBool True]))"
proof (intro conjI allI impI)
  fix fm assume "config ''formatter'' = Some (JObject fm)"
  then show "patchConfig config ''formatter'' =
      Some (JObject (fm(''formatWithErrors'' \<mapsto> JBool True)))"
    by (simp add: patchConfig_def patchJavascript_other patchFormatter_formatter)
next
  assume "\<forall>fm. config ''formatter'' \<noteq> Some (JObject fm)"
  then have "asObject (config ''formatter'') = None" by (simp add: asObject_None_iff)
  then show "patchConfig config ''formatter'' =
      Some (JObject [''formatWithErrors'' \<mapsto> JBool True])"
    by (simp add: patchConfig_def patchJavascript_other patchFormatter_formatter)
qed

theorem patchConfig_formatter_section_witness:
  "patchConfig [''formatter'' \<mapsto> JObject [''indentStyle'' \<mapsto> JString ''tab'']]
     ''formatter'' =
     Some (JObject [''indentStyle'' \<mapsto> JString ''tab'',
                    ''formatWithErrors'' \<mapsto> (JBool True :: int json)]) \<and>
   patchConfig [''formatter'' \<mapsto> JString ''off''] ''formatter'' =
     Some (JObject [''formatWithErrors'' \<mapsto> (JBool True :: int json)]) \<and>
   patchConfig Map.empty ''formatter'' =
     Some (JObject [''formatWithErrors'' \<mapsto> (JBool True :: int json)])"
proof (intro conjI)
  let ?c = "[''formatter'' \<mapsto> JObject [''indentStyle'' \<mapsto> JString ''tab'']] :: int config"
  have "?c ''formatter'' = Some (JObject [''indentStyle'' \<mapsto> JString ''tab''])" by simp
  from patchConfig_formatter_section[of ?c, THEN conjunct1, rule_format, OF this]
  show "patchConfig ?c ''formatter'' =
     Some (JObject [''indentStyle'' \<mapsto> JString ''tab'', ''formatWithErrors'' \<mapsto> JBool True])" .
next
  let ?c = "[''formatter'' \<mapsto> JString ''off''] :: int config"
  have "\<forall>fm. ?c ''formatter'' \<noteq> Some (JObject fm)" by simp
  from patchConfig_formatter_section[of ?c, THEN conjunct2, THEN mp, OF this]
  show "patchConfig ?c ''formatter'' = Some (JObject [''formatWithErrors'' \<mapsto> JBool True])" .
next
  let ?c = "Map.empty :: int config"
  have "\<forall>fm. ?c ''formatter'' \<noteq> Some (JObject fm)" by simp
  from patchConfig_formatter_section[of ?c, THEN conjunct2, THEN mp, OF this]
  show "patchConfig ?c ''formatter'' = Some (JObject [''formatWithErrors'' \<mapsto> JBool True])" .
qed

text \<open>
  Claim C3.  Patching a patched document changes nothing: the two injected keys are
  bound, not appended.  After one patch \<^verbatim>\<open>formatter.formatWithErrors\<close> is true and
  \<^verbatim>\<open>javascript.parser\<close> is the object holding
  \<^verbatim>\<open>unsafeParameterDecoratorsEnabled = true\<close>.
\<close>

theorem patchConfig_idempotent:
  "patchConfig (patchConfig config) = patchConfig config \<and>
   (\<exists>fm. patchConfig config ''formatter'' = Some (JObject fm) \<and>
         fm ''formatWithErrors'' = Some (JBool True)) \<and>
   (\<exists>js. patchConfig config ''javascript'' = Some (JObject js) \<and>
         js ''parser'' = Some (JObject [''unsafeParameterDecoratorsEnabled'' \<mapsto> JBool True]))"
proof (intro conjI)
  show "patchConfig (patchConfig config) = patchConfig config"
    by (simp add: patchConfig_def patch_commute patchFormatter_idem patchJavascript_idem)
  show "\<exists>fm. patchConfig config ''formatter'' = Some (JObject fm) \<and>
         fm ''formatWithErrors'' = Some (JBool True)"
    by (simp add: patchConfig_def patchJavascript_other patchFormatter_formatter
        split: option.splits)
  show "\<exists>js. patchConfig config ''javascript'' = Some (JObject js) \<and>
         js ''parser'' = Some (JObject [''unsafeParameterDecoratorsEnabled'' \<mapsto> JBool True])"
    by (simp add: patchConfig_def patchJavascript_javascript split: option.splits)
qed

theorem patchConfig_idempotent_witness:
  "patchConfig (patchConfig [''formatter'' \<mapsto> JObject [''indentStyle'' \<mapsto> JString ''tab'']]) =
   patchConfig [''formatter'' \<mapsto> JObject [''indentStyle'' \<mapsto> (JString ''tab'' :: int json)]]"
  by (rule patchConfig_idempotent[THEN conjunct1])

text \<open>
  Claim C1.  The claim asks that the keys already under \<^verbatim>\<open>javascript.parser\<close> survive
  the patch.  They do not: the source binds \<^verbatim>\<open>js["parser"]\<close> to a fresh object, so in
  the document \<^verbatim>\<open>{"javascript": {"parser": {"jsxEverywhere": true}}}\<close> the patched
  parser object has lost \<^verbatim>\<open>jsxEverywhere\<close> and holds the injected key only.
\<close>

theorem patchConfig_drops_parser_keys:
  "\<exists>js parser.
     patchConfig [''javascript'' \<mapsto>
        JObject [''parser'' \<mapsto> JObject [''jsxEverywhere'' \<mapsto> (JBool True :: int json)]]]
       ''javascript'' = Some (JObject js) \<and>
     js ''parser'' = Some (JObject parser) \<and>
     parser ''jsxEverywhere'' = None \<and>
     parser ''unsafeParameterDecoratorsEnabled'' = Some (JBool True)"
  by (simp add: patchConfig_def patchJavascript_javascript patchFormatter_other)

section \<open>Properties of the calls on the operating system\<close>

lemma fs_emit [simp]: "fs (emit ev w) = fs w"
  by (simp add: emit_def)

lemma log_emit [simp]: "log (emit ev w) = log w @ [ev]"
  by (simp add: emit_def)

lemma fs_println [simp]: "fs (println m w) = fs w"
  by (simp add: println_def)

lemma log_println [simp]: "log (println m w) = log w @ [Print m]"
  by (simp add: println_def)

lemma reportLocations_prints:
  "fs (reportLocations locs w) = fs w \<and>
   (\<exists>ms. log (reportLocations locs w) = log w @ map Print ms)"
proof (induction locs arbitrary: w)
  case Nil
  show ?case by simp
next
  case (Cons a locs)
  obtain d loc where a: "a = (d, loc)" by (cases a)
  let ?w1 = "println (MsgLocation d (flagNames loc)) w"
  from Cons.IH[of ?w1] obtain ms where
    "fs (reportLocations locs ?w1) = fs ?w1" "log (reportLocations locs ?w1) = log ?w1 @ map Print ms"
    by blast
  then have "fs (reportLocations (a # locs) w) = fs w"
    and "log (reportLocations (a # locs) w) = log w @ map Print (MsgLocation d (flagNames loc) # ms)"
    by (simp_all add: a)
  then show ?case by blast
qed

lemma dryRunDir_prints:
  "fs (dryRunDir d loc w) = fs w \<and> (\<exists>ms. log (dryRunDir d loc w) = log w @ map Print ms)"
proof -
  have "log (dryRunDir d loc w) = log w @ map Print
      ([MsgDryRunWould d] @ (if hasEslint loc then [MsgDryRunEslint] else [])
        @ (if hasPrettier loc then [MsgDryRunPrettier] else []))"
    by (simp add: dryRunDir_def Let_def)
  moreover have "fs (dryRunDir d loc w) = fs w"
    by (simp add: dryRunDir_def Let_def)
  ultimately show ?thesis by blast
qed

lemma migrateAll_dryRun_prints:
  "fst (migrateAll env True locs w) = False \<and>
   fs (snd (migrateAll env True locs w)) = fs w \<and>
   (\<exists>ms. log (snd (migrateAll env True locs w)) = log w @ map Print ms)"
proof (induction locs arbitrary: w)
  case Nil
  show ?case by simp
next
  case (Cons a locs)
  obtain d loc where a: "a = (d, loc)" by (cases a)
  let ?w1 = "dryRunDir d loc w"
  from dryRunDir_prints[of d loc w] obtain ms1 where
    1: "fs ?w1 = fs w" "log ?w1 = log w @ map Print ms1" by blast
  from Cons.IH[of ?w1] obtain ms2 where
    2: "fst (migrateAll env True locs ?w1) = False"
       "fs (snd (migrateAll env True locs ?w1)) = fs ?w1"
       "log (snd (migrateAll env True locs ?w1)) = log ?w1 @ map Print ms2" by blast
  have "log (snd (migrateAll env True (a # locs) w)) = log w @ map Print (ms1 @ ms2)"
    using 1 2 by (simp add: a)
  moreover have "fs (snd (migrateAll env True (a # locs) w)) = fs w"
    using 1 2 by (simp add: a)
  moreover have "fst (migrateAll env True (a # locs) w) = False"
    using 2 by (simp add: a)
  ultimately show ?case by blast
qed

text \<open>
  Claim C6.  With \<^verbatim>\<open>-dry-run\<close> set, whatever the scan finds and however the
  surroundings would answer, \<^verbatim>\<open>main\<close> leaves the file system as it was and every call
  it makes is a print: no stat, read, write or removal of a file, and no subprocess.
\<close>

theorem main_dryRun_only_prints:
  "fs (snd (main env inputDir True w)) = fs w \<and>
   (\<exists>ms. log (snd (main env inputDir True w)) = log w @ map Print ms)"
proof -
  let ?P = "\<lambda>r :: ending \<times> 'a world. fs (snd r) = fs w \<and> (\<exists>ms. log (snd r) = log w @ map Print ms)"
  have one: "?P (c, println m w)" for c m
  proof -
    have "log (println m w) = log w @ map Print [m]" by simp
    then show ?thesis unfolding snd_conv by (metis fs_println)
  qed
  have none: "?P (c, w)" for c
  proof -
    have "log w = log w @ map Print []" by simp
    then show ?thesis unfolding snd_conv by blast
  qed
  have loops: "?P (case migrateAll env True l2 (reportLocations l1 (println m w)) of
                    (True, w3) \<Rightarrow> (Panic, w3)
                  | (False, w3) \<Rightarrow> (Exit 0, println MsgDone w3))"
    for l1 l2 m
  proof -
    let ?w1 = "println m w"
    let ?w2 = "reportLocations l1 ?w1"
    let ?r = "migrateAll env True l2 ?w2"
    from reportLocations_prints[of l1 ?w1] obtain ms1 where
      a: "fs ?w2 = fs w" "log ?w2 = log w @ map Print (m # ms1)" by auto
    from migrateAll_dryRun_prints[of env l2 ?w2] obtain ms2 where
      b: "fst ?r = False" "fs (snd ?r) = fs ?w2" "log (snd ?r) = log ?w2 @ map Print ms2" by blast
    obtain w3 where r: "?r = (False, w3)" using b(1) by (cases ?r) auto
    have l: "log (println MsgDone w3) = log w @ map Print (m # ms1 @ ms2 @ [MsgDone])"
      using a b r by simp
    have f: "fs (println MsgDone w3) = fs w" using a b r by simp
    have s: "(case ?r of (True, w3) \<Rightarrow> (Panic, w3)
                | (False, w3) \<Rightarrow> (Exit 0, println MsgDone w3)) = (Exit 0, println MsgDone w3)"
      using r by simp
    show ?thesis unfolding s snd_conv using l f by blast
  qed
  have "?P (main env inputDir True w)"
  proof (cases "inputDir = []")
    case True
    then have "main env inputDir True w = (Exit 1, println MsgUsage w)"
      by (simp add: main_def)
    then show ?thesis using one by simp
  next
    case nonempty: False
    show ?thesis
    proof (cases "envAbs env inputDir")
      case (Inl err)
      then have "main env inputDir True w = (Exit 1, println (MsgResolveError err) w)"
        using nonempty by (simp add: main_def)
      then show ?thesis using one by simp
    next
      case (Inr absInputDir)
      obtain locs err where fc: "findConfigs absInputDir (envTree env (fs w) absInputDir) = (locs, err)"
        by (cases "findConfigs absInputDir (envTree env (fs w) absInputDir)")
      show ?thesis
      proof (cases err)
        case RNil
        show ?thesis
        proof (cases "length locs = 0")
          case True
          then have "main env inputDir True w = (Exit 0, println MsgNoConfigs w)"
            using nonempty Inr fc RNil by (simp add: main_def)
          then show ?thesis using one by simp
        next
          case False
          then have "main env inputDir True w =
             (case migrateAll env True (envRange env 1 locs)
                      (reportLocations (envRange env 0 locs) (println (MsgFound (length locs)) w)) of
                     (True, w3) \<Rightarrow> (Panic, w3)
                   | (False, w3) \<Rightarrow> (Exit 0, println MsgDone w3))"
            using nonempty Inr fc RNil by (simp add: main_def Let_def)
          then show ?thesis
            using loops[of "envRange env 1 locs" "envRange env 0 locs" "MsgFound (length locs)"]
            by (simp only:)
        qed
      next
        case RSkipDir
        then have "main env inputDir True w = (Exit 1, println (MsgScanError err) w)"
          using nonempty Inr fc by (simp add: main_def)
        then show ?thesis using one by simp
      next
        case (RErr e)
        then have "main env inputDir True w = (Exit 1, println (MsgScanError err) w)"
          using nonempty Inr fc by (simp add: main_def)
        then show ?thesis using one by simp
      next
        case RPanic
        then have "main env inputDir True w = (Panic, w)"
          using nonempty Inr fc by (simp add: main_def)
        then show ?thesis using none by simp
      qed
    qed
  qed
  then show ?thesis .
qed

lemmas scan_defs =
  findConfigs_def Walk_def walkFn_def base_def filepathDir_def skippedName_def
  eslintConfigFiles_def prettierConfigFiles_def ensureLocation_def isPermission_def Let_def

lemma findConfigs_sampleTree:
  "findConfigs [''home'', ''proj''] sampleTree =
     ([([''home'', ''proj'', ''a''],
        \<lparr>dir = [''home'', ''proj'', ''a''], hasEslint = True, hasPrettier = False\<rparr>),
       ([''home'', ''proj'', ''b''],
        \<lparr>dir = [''home'', ''proj'', ''b''], hasEslint = False, hasPrettier = True\<rparr>),
       ([''home'', ''proj'', ''c''],
        \<lparr>dir = [''home'', ''proj'', ''c''], hasEslint = True, hasPrettier = True\<rparr>)],
      RNil)"
  by (simp add: scan_defs sampleTree_def)

lemma findConfigs_brokenTree:
  "findConfigs [''home'', ''proj''] brokenTree =
     ([([''home'', ''proj'', ''a''],
        \<lparr>dir = [''home'', ''proj'', ''a''], hasEslint = True, hasPrettier = False\<rparr>)],
      RErr (ErrOther ''input/output error''))"
  by (simp add: scan_defs brokenTree_def)

theorem main_dryRun_only_prints_witness:
  "length (fst (findConfigs [''home'', ''proj''] sampleTree)) = 3 \<and>
   fs (snd (main (sampleEnv sampleTree) ''proj'' True emptyWorld)) = fs emptyWorld \<and>
   (\<exists>ms. log (snd (main (sampleEnv sampleTree) ''proj'' True emptyWorld)) =
      log emptyWorld @ map Print ms)"
  using main_dryRun_only_prints[of "sampleEnv sampleTree" "''proj''" emptyWorld]
  by (simp add: findConfigs_sampleTree)

text \<open>
  Claim C8.  When reading the file fails, or the decoder rejects its contents,
  \<^verbatim>\<open>patchBiomeConfig\<close> returns that error, the file system is as before and the read
  is the only call made.  If the file system changed, or any further call was made, then
  reading, decoding and encoding all succeeded, and the one further call is the write of
  the encoded patched document.
\<close>

theorem patchBiomeConfig_no_partial_write:
  assumes "patchBiomeConfig env p w = (st, w')"
  shows "(\<forall>err. envReadFile env (fs w) p = Inl err \<longrightarrow>
            st = Returned (Some err) \<and> fs w' = fs w \<and> log w' = log w @ [ReadFile p]) \<and>
         (\<forall>data err. envReadFile env (fs w) p = Inr data \<and>
              unmarshalConfig (envDecode env) data = Inl err \<longrightarrow>
            st = Returned (Some err) \<and> fs w' = fs w \<and> log w' = log w @ [ReadFile p]) \<and>
         (fs w' \<noteq> fs w \<or> log w' \<noteq> log w @ [ReadFile p] \<longrightarrow>
            (\<exists>data config output.
               envReadFile env (fs w) p = Inr data \<and>
               unmarshalConfig (envDecode env) data = Inr (Some config) \<and>
               envEncode env (patchConfig config) = Inr output \<and>
               st = Returned (fst (envWriteFile env (fs w) p output)) \<and>
               fs w' = snd (envWriteFile env (fs w) p output) \<and>
               log w' = log w @ [ReadFile p, WriteFile p output]))"
  using assms
  by (auto simp: patchBiomeConfig_def osReadFile_def osWriteFile_def
      split: sum.splits option.splits prod.splits)

theorem patchBiomeConfig_no_partial_write_witness:
  "fst (patchBiomeConfig (sampleEnv sampleTree) [''home'', ''proj'', ''a'', ''biome.json''] emptyWorld)
     = Returned (Some ErrNotExist) \<and>
   fs (snd (patchBiomeConfig (sampleEnv sampleTree) [''home'', ''proj'', ''a'', ''biome.json''] emptyWorld))
     = fs emptyWorld \<and>
   log (snd (patchBiomeConfig (sampleEnv sampleTree) [''home'', ''proj'', ''a'', ''biome.json''] emptyWorld))
     = log emptyWorld @ [ReadFile [''home'', ''proj'', ''a'', ''biome.json'']]"
proof -
  let ?p = "[''home'', ''proj'', ''a'', ''biome.json'']"
  let ?r = "patchBiomeConfig (sampleEnv sampleTree) ?p emptyWorld"
  have r: "?r = (fst ?r, snd ?r)" by simp
  have rd: "envReadFile (sampleEnv sampleTree) (fs emptyWorld) ?p = Inl ErrNotExist"
    by (simp add: sampleEnv_def emptyWorld_def)
  from patchBiomeConfig_no_partial_write[OF r, THEN conjunct1, rule_format, OF rd]
  show ?thesis .
qed

lemma runEslint_failed: "fst (runEslint env d loc w) \<Longrightarrow> hasEslint loc"
  by (simp add: runEslint_def split: if_splits)

lemma runPrettier_failed: "fst (runPrettier env d loc w) \<Longrightarrow> hasPrettier loc"
  by (simp add: runPrettier_def split: if_splits)

lemma migrateDir_never_removes:
  "migrateDir env d loc w = migrateDirAlwaysPatch env d loc w"
  using runEslint_failed[of env d loc] runPrettier_failed[of env d loc]
  by (auto simp add: migrateDir_def migrateDirAlwaysPatch_def Let_def split_beta
      split: option.splits)

text \<open>
  Claim C9.  The claim asks that a failure of the patcher in one directory is reported
  and never changes the exit status.  An output file that holds the JSON literal
  \<^verbatim>\<open>null\<close> decodes without error to a nil map, and the patcher then panics on the
  assignment \<^verbatim>\<open>config["formatter"] = ...\<close>: the run below, in which
  \<^verbatim>\<open>/home/proj/a/biome.json\<close> holds \<^verbatim>\<open>null\<close>, ends in a panic (exit status 2) after the
  read, and the directories \<^verbatim>\<open>b\<close> and \<^verbatim>\<open>c\<close> are never migrated.
\<close>

theorem main_panics_on_null_output_file:
  "main (sampleEnv sampleTree) ''proj'' False nullBiomeWorld =
     (Panic,
      \<lparr>fs = [[''home'', ''proj'', ''a'', ''biome.json''] \<mapsto> ''null''],
       log = [Print (MsgFound 3),
              Print (MsgLocation [''home'', ''proj'', ''a''] [''eslint'']),
              Print (MsgLocation [''home'', ''proj'', ''b''] [''prettier'']),
              Print (MsgLocation [''home'', ''proj'', ''c''] [''eslint'', ''prettier'']),
              Print (MsgMigrating [''home'', ''proj'', ''a'']),
              Stat [''home'', ''proj'', ''a'', ''biome.json''],
              Exec [''npx'', ''@biomejs/biome'', ''migrate'', ''eslint'', ''--write'']
                [''home'', ''proj'', ''a''],
              Print (MsgEslintError (ErrOther ''exit status 1'')),
              ReadFile [''home'', ''proj'', ''a'', ''biome.json'']]\<rparr>)"
  by (simp add: main_def findConfigs_sampleTree sampleEnv_def nullBiomeWorld_def flagNames_def
      migrateDir_def osStat_def osWriteFile_def runEslint_def runPrettier_def patchAndReport_def
      patchBiomeConfig_def osReadFile_def unmarshalConfig_def sampleDecode_def
      migrateEslintConfig_def migratePrettierConfig_def cmdRun_def emit_def println_def Let_def)

section \<open>Properties of the walk\<close>

lemma walkNames_Cons:
  "walkNames fn p ((name, t) # es) s =
     (case walk fn (p @ [name]) t s of
        (err, s') \<Rightarrow>
          if err = RNil \<or> (err = RSkipDir \<and> t \<noteq> File) then walkNames fn p es s'
          else (err, s'))"
  by (cases t) (auto split: prod.splits)

lemma Walk_eq:
  "Walk fn root t s =
     (case walk fn root t s of (err, s') \<Rightarrow> if err = RSkipDir then (RNil, s') else (err, s'))"
  by (cases t) (auto simp: Walk_def)

lemma walk_induct:
  assumes leaf: "\<And>p t s. \<not> (\<exists>es. t = Dir es) \<Longrightarrow> P p t s"
    and node: "\<And>p es s. (\<And>s'. Q p es s') \<Longrightarrow> P p (Dir es) s"
    and nil: "\<And>p s. Q p [] s"
    and cons: "\<And>p name t es s. (\<And>s'. P (p @ [name]) t s') \<Longrightarrow> (\<And>s'. Q p es s') \<Longrightarrow> Q p ((name, t) # es) s"
  shows "P p t s" and "Q p es s"
proof -
  have loop: "(\<And>name t. (name, t) \<in> set es \<Longrightarrow> \<forall>p s. P p t s) \<Longrightarrow> \<forall>s. Q p es s" for es p
  proof (induction es)
    case Nil
    show ?case by (simp add: nil)
  next
    case (Cons a es)
    obtain name t where a: "a = (name, t)" by (cases a)
    have "\<forall>p s. P p t s" using Cons.prems[of name t] by (simp add: a)
    moreover have "\<forall>s. Q p es s"
    proof (rule Cons.IH)
      fix name t assume "(name, t) \<in> set es"
      then show "\<forall>p s. P p t s" using Cons.prems[of name t] by simp
    qed
    ultimately show ?case using cons a by blast
  qed
  have main: "\<forall>p s. P p t s" for t
  proof (induction t)
    case (Dir es)
    have "\<And>name t. (name, t) \<in> set es \<Longrightarrow> \<forall>p s. P p t s"
      using Dir by fastforce
    then have "\<forall>s. Q p es s" for p using loop by blast
    then show ?case using node by blast
  qed (simp_all add: leaf)
  show "P p t s" using main by blast
  show "Q p es s" using loop main by blast
qed

text \<open>What holds of the state before a walk and is kept by the callback holds after it.\<close>

lemma walk_preserves:
  assumes step: "\<And>p i e s. I s \<Longrightarrow> I (snd (fn p i e s))"
  shows "I s \<Longrightarrow> I (snd (walk fn p t s))"
    and "I s \<Longrightarrow> I (snd (walkNames fn p es s))"
proof (induction p t s and p es s rule: walk_induct)
  case (1 p t s)
  then show ?case using step by (cases t) auto
next
  case (2 p es s)
  have "I (snd (fn p (Some \<lparr>Name = base p, IsDir = True\<rparr>) None s))" using step 2 by blast
  then show ?case using 2(1) by (auto split: prod.splits walk_ret.splits)
next
  case (3 p s)
  then show ?case by simp
next
  case (4 p name t es s)
  obtain r s1 where w: "walk fn (p @ [name]) t s = (r, s1)"
    by (cases "walk fn (p @ [name]) t s")
  have "I s1" using 4(1)[of s] 4(3) w by simp
  then have "I (snd (walkNames fn p es s1))" using 4(2) by blast
  then show ?case using w \<open>I s1\<close> by (simp add: walkNames_Cons)
qed

lemma Walk_preserves:
  assumes "\<And>p i e s. I s \<Longrightarrow> I (snd (fn p i e s))" and "I s"
  shows "I (snd (Walk fn root t s))"
proof -
  have "I (snd (walk fn root t s))" using walk_preserves(1)[of I fn] assms by blast
  then show ?thesis by (cases "walk fn root t s") (simp add: Walk_eq)
qed

section \<open>Properties of the callback\<close>

lemma update_fresh: "map_of al k = None \<Longrightarrow> AList.update k v al = al @ [(k, v)]"
  by (induction al) (auto split: if_splits)

lemma set_map_entry:
  "(k, v) \<in> set (AList.map_entry d f al) \<Longrightarrow>
     (k, v) \<in> set al \<or> (k = d \<and> v \<in> range f)"
  by (induction al) (auto split: if_splits)

lemma map_entry_fresh:
  "map_of al d = None \<Longrightarrow> AList.map_entry d f (al @ [(d, v)]) = al @ [(d, f v)]"
  by (induction al) (auto split: if_splits)

lemma set_map_entry_ensureLocation:
  assumes "(k, v) \<in> set (AList.map_entry d f (ensureLocation d locs))"
  shows "(k, v) \<in> set locs \<or> (k = d \<and> v \<in> range f)"
proof (cases "map_of locs d = None")
  case True
  then have "AList.map_entry d f (ensureLocation d locs) =
      locs @ [(d, f \<lparr>dir = d, hasEslint = False, hasPrettier = False\<rparr>)]"
    by (simp add: ensureLocation_def update_fresh map_entry_fresh)
  then show ?thesis using assms by auto
next
  case False
  then have "ensureLocation d locs = locs" by (auto simp add: ensureLocation_def)
  then show ?thesis using assms set_map_entry[of k v d f locs] by simp
qed

lemma walkFn_flags:
  assumes "\<forall>(k, l) \<in> set locs. hasEslint l \<or> hasPrettier l"
  shows "\<forall>(k, l) \<in> set (snd (walkFn p i e locs)). hasEslint l \<or> hasPrettier l"
proof -
  let ?ok = "\<lambda>s. \<forall>(k, l) \<in> set s. hasEslint l \<or> hasPrettier l"
  have eslint: "?ok (AList.map_entry d (\<lambda>l. l\<lparr>hasEslint := True\<rparr>) (ensureLocation d s))"
    if "?ok s" for d s
  proof (clarify)
    fix k l assume "(k, l) \<in> set (AList.map_entry d (\<lambda>l. l\<lparr>hasEslint := True\<rparr>) (ensureLocation d s))"
      and "\<not> hasPrettier l"
    from set_map_entry_ensureLocation[OF this(1)] that this(2) show "hasEslint l" by auto
  qed
  have prettier: "?ok (AList.map_entry d (\<lambda>l. l\<lparr>hasPrettier := True\<rparr>) (ensureLocation d s))"
    if "?ok s" for d s
  proof (clarify)
    fix k l assume "(k, l) \<in> set (AList.map_entry d (\<lambda>l. l\<lparr>hasPrettier := True\<rparr>) (ensureLocation d s))"
      and "\<not> hasPrettier l"
    from set_map_entry_ensureLocation[OF this(1)] that this(2) show "hasEslint l" by auto
  qed
  show ?thesis
  proof (cases e)
    case (Some err)
    then show ?thesis using assms by (simp add: walkFn_def)
  next
    case None
    show ?thesis
    proof (cases i)
      case inone: None
      then show ?thesis using assms None by (simp add: walkFn_def)
    next
      case (Some info)
      show ?thesis
      proof (cases "IsDir info")
        case True
        then show ?thesis using assms None Some by (simp add: walkFn_def)
      next
        case False
        let ?d = "filepathDir p"
        let ?l1 = "if Name info \<in> set eslintConfigFiles
                   then AList.map_entry ?d (\<lambda>l. l\<lparr>hasEslint := True\<rparr>) (ensureLocation ?d locs)
                   else locs"
        let ?l2 = "if Name info \<in> set prettierConfigFiles
                   then AList.map_entry ?d (\<lambda>l. l\<lparr>hasPrettier := True\<rparr>) (ensureLocation ?d ?l1)
                   else ?l1"
        have "?ok ?l1" using assms eslint by simp
        then have "?ok ?l2" using prettier[of ?l1 ?d] by simp
        moreover have "snd (walkFn p i e locs) = ?l2"
          using None Some False by (simp add: walkFn_def Let_def)
        ultimately show ?thesis by simp
      qed
    qed
  qed
qed

lemma findConfigs_flags:
  "\<forall>(k, l) \<in> set (fst (findConfigs root t)). hasEslint l \<or> hasPrettier l"
proof -
  have "\<forall>(k, l) \<in> set (snd (Walk walkFn root t [])). hasEslint l \<or> hasPrettier l"
    by (rule Walk_preserves[where I = "\<lambda>s. \<forall>(k, l) \<in> set s. hasEslint l \<or> hasPrettier l"])
       (simp_all add: walkFn_flags)
  then show ?thesis by (cases "Walk walkFn root t []") (simp add: findConfigs_def)
qed

section \<open>Errors of the scan\<close>

lemma base_snoc [simp]: "base (p @ [name]) = name"
  by (simp add: base_def)

lemma walkFn_error:
  "walkFn p i (Some e) s = (if isPermission e then RSkipDir else RErr e, s)"
  by (simp add: walkFn_def)

lemma walkFn_dir:
  "walkFn p (Some \<lparr>Name = name, IsDir = True\<rparr>) None s =
     (if skippedName name then RSkipDir else RNil, s)"
  by (simp add: walkFn_def)

lemma walkFn_file_ret: "fst (walkFn p (Some \<lparr>Name = name, IsDir = False\<rparr>) None s) = RNil"
  by (simp add: walkFn_def Let_def)

lemma walkResult_no_errors:
  assumes "scanErrors name t = []"
  shows "walkResult name t = RNil \<or> (walkResult name t = RSkipDir \<and> t \<noteq> File)"
proof (cases t)
  case (Dir es)
  then show ?thesis using assms
    by (simp add: walkResult_def del: scanErrors.simps)
next
  case File
  then show ?thesis by (simp add: walkResult_def)
next
  case (Unreadable e)
  then show ?thesis using assms by (simp add: walkResult_def split: if_splits)
next
  case (NoStat e)
  then show ?thesis using assms by (simp add: walkResult_def split: if_splits)
qed

lemma walkResult_first_error:
  assumes "scanErrors name t = e # rest"
  shows "walkResult name t = RErr e"
proof (cases t)
  case (Dir es)
  then have "\<not> skippedName name" using assms by (auto split: if_splits)
  then show ?thesis using Dir assms
    by (simp add: walkResult_def del: scanErrors.simps)
next
  case File
  then show ?thesis using assms by simp
next
  case (Unreadable e')
  then show ?thesis using assms by (simp add: walkResult_def split: if_splits)
next
  case (NoStat e')
  then show ?thesis using assms by (simp add: walkResult_def split: if_splits)
qed

lemma walk_result:
  "fst (walk walkFn p t s) = walkResult (base p) t"
  "fst (walkNames walkFn p es s) =
     (case concat (map (\<lambda>x. scanErrors (fst x) (snd x)) es) of [] \<Rightarrow> RNil | e # _ \<Rightarrow> RErr e)"
proof (induction p t s and p es s rule: walk_induct)
  case (1 p t s)
  then show ?case
    by (cases t) (simp_all add: walkResult_def walkFn_error walkFn_file_ret)
next
  case (2 p es s)
  show ?case
  proof (cases "skippedName (base p)")
    case True
    then show ?thesis by (simp add: walkResult_def walkFn_dir)
  next
    case False
    have "fst (walk walkFn p (Dir es) s) = fst (walkNames walkFn p es s)"
      using False by (simp add: walkFn_dir)
    also have "\<dots> = walkResult (base p) (Dir es)"
      using False 2[of s] by (simp add: walkResult_def)
    finally show ?thesis .
  qed
next
  case (3 p s)
  show ?case by simp
next
  case (4 p name t es s)
  obtain r s1 where w: "walk walkFn (p @ [name]) t s = (r, s1)"
    by (cases "walk walkFn (p @ [name]) t s")
  have r: "r = walkResult name t" using 4(1)[of s] w by simp
  show ?case
  proof (cases "scanErrors name t")
    case Nil
    then have "r = RNil \<or> (r = RSkipDir \<and> t \<noteq> File)"
      using r walkResult_no_errors by blast
    then show ?thesis using w 4(2)[of s1] Nil by (auto simp: walkNames_Cons)
  next
    case (Cons e rest)
    then have "r = RErr e" using r walkResult_first_error by blast
    then show ?thesis using w Cons by (simp add: walkNames_Cons)
  qed
qed

lemma findConfigs_error:
  "snd (findConfigs root t) =
     (case scanErrors (base root) t of [] \<Rightarrow> RNil | e # _ \<Rightarrow> RErr e)"
proof -
  obtain r s where w: "walk walkFn root t [] = (r, s)" by (cases "walk walkFn root t []")
  then have r: "r = walkResult (base root) t" using walk_result(1)[of root t "[]"] by simp
  have fc: "snd (findConfigs root t) = (if r = RSkipDir then RNil else r)"
    using w by (simp add: findConfigs_def Walk_eq)
  show ?thesis
  proof (cases "scanErrors (base root) t")
    case Nil
    then show ?thesis using walkResult_no_errors[OF Nil] r fc by auto
  next
    case (Cons e rest)
    then show ?thesis using walkResult_first_error[OF Cons] r fc by simp
  qed
qed

text \<open>
  Claim C7.  In the loop over the entries of a directory, an entry that cannot be listed
  or stat'ed because of a permission error is passed over: the loop goes on with the
  next entries and the state is untouched.  With any other error the loop stops there
  and returns that error.  For the whole scan: \<^verbatim>\<open>findConfigs\<close> returns a nil error
  when the walk meets no error other than permission errors, and otherwise the first
  such error in the order of the walk.
\<close>

theorem scan_skips_permission_errors_aborts_on_others:
  "(isPermission e \<longrightarrow>
      walkNames walkFn p ((name, Unreadable e) # es) locs = walkNames walkFn p es locs \<and>
      walkNames walkFn p ((name, NoStat e) # es) locs = walkNames walkFn p es locs) \<and>
   (\<not> isPermission e \<longrightarrow>
      walkNames walkFn p ((name, Unreadable e) # es) locs = (RErr e, locs) \<and>
      walkNames walkFn p ((name, NoStat e) # es) locs = (RErr e, locs)) \<and>
   snd (findConfigs root t) =
     (case scanErrors (base root) t of [] \<Rightarrow> RNil | err # _ \<Rightarrow> RErr err)"
  by (simp add: findConfigs_error walkFn_error)

theorem scan_skips_permission_errors_aborts_on_others_witness:
  "walkNames walkFn [''home'', ''proj''] [(''locked'', Unreadable ErrPermission), (''b'', Dir [(''.prettierrc'', File)])] []
     = walkNames walkFn [''home'', ''proj''] [(''b'', Dir [(''.prettierrc'', File)])] [] \<and>
   walkNames walkFn [''home'', ''proj''] [(''bad'', Unreadable ErrNotExist), (''b'', Dir [(''.prettierrc'', File)])] []
     = (RErr ErrNotExist, []) \<and>
   snd (findConfigs [''home'', ''proj''] sampleTree) = RNil \<and>
   snd (findConfigs [''home'', ''proj''] brokenTree) = RErr (ErrOther ''input/output error'')"
proof (intro conjI)
  have perm: "isPermission ErrPermission" by (simp add: isPermission_def)
  have nperm: "\<not> isPermission ErrNotExist" by (simp add: isPermission_def)
  note c7 = scan_skips_permission_errors_aborts_on_others
  from c7[THEN conjunct1, THEN mp, OF perm, THEN conjunct1]
  show "walkNames walkFn [''home'', ''proj''] [(''locked'', Unreadable ErrPermission), (''b'', Dir [(''.prettierrc'', File)])] []
     = walkNames walkFn [''home'', ''proj''] [(''b'', Dir [(''.prettierrc'', File)])] []" .
  from c7[THEN conjunct2, THEN conjunct1, THEN mp, OF nperm, THEN conjunct1]
  show "walkNames walkFn [''home'', ''proj''] [(''bad'', Unreadable ErrNotExist), (''b'', Dir [(''.prettierrc'', File)])] []
     = (RErr ErrNotExist, [])" .
  show "snd (findConfigs [''home'', ''proj''] sampleTree) = RNil"
    by (simp add: c7[THEN conjunct2, THEN conjunct2] sampleTree_def base_def skippedName_def isPermission_def)
  show "snd (findConfigs [''home'', ''proj''] brokenTree) = RErr (ErrOther ''input/output error'')"
    by (simp add: c7[THEN conjunct2, THEN conjunct2] brokenTree_def base_def skippedName_def isPermission_def)
qed

lemma patchBiomeConfig_log:
  "log (snd (patchBiomeConfig env p w)) = log w @ [ReadFile p] \<or>
   (\<exists>out. log (snd (patchBiomeConfig env p w)) = log w @ [ReadFile p, WriteFile p out])"
  by (auto simp: patchBiomeConfig_def osReadFile_def osWriteFile_def
      split: sum.splits option.splits prod.splits)

lemma patchAndReport_log:
  "\<exists>post. log (snd (patchAndReport env p w)) = log w @ ReadFile p # post \<and>
      (\<forall>a dd. Exec a dd \<notin> set post) \<and> (\<forall>q. Remove q \<notin> set post)"
proof -
  obtain st w1 where pb: "patchBiomeConfig env p w = (st, w1)"
    by (cases "patchBiomeConfig env p w")
  have "log w1 = log w @ [ReadFile p] \<or> (\<exists>out. log w1 = log w @ [ReadFile p, WriteFile p out])"
    using patchBiomeConfig_log[of env p w] unfolding pb snd_conv .
  then obtain mid where mid: "log w1 = log w @ ReadFile p # mid"
    "(\<forall>a dd. Exec a dd \<notin> set mid)" "(\<forall>q. Remove q \<notin> set mid)"
    by auto
  show ?thesis
  proof (cases st)
    case Panicked
    then have "log (snd (patchAndReport env p w)) = log w @ ReadFile p # mid"
      using pb mid(1) by (simp add: patchAndReport_def)
    then show ?thesis using mid(2,3) by blast
  next
    case (Returned err)
    show ?thesis
    proof (cases err)
      case None
      then have "log (snd (patchAndReport env p w)) = log w @ ReadFile p # (mid @ [Print (MsgCreated p)])"
        using pb mid(1) Returned by (simp add: patchAndReport_def)
      moreover have "(\<forall>a dd. Exec a dd \<notin> set (mid @ [Print (MsgCreated p)]))"
        "(\<forall>q. Remove q \<notin> set (mid @ [Print (MsgCreated p)]))" using mid(2,3) by simp_all
      ultimately show ?thesis by blast
    next
      case (Some e)
      then have "log (snd (patchAndReport env p w)) =
          log w @ ReadFile p # (mid @ [Print (MsgPatchError e), Print (MsgCreated p)])"
        using pb mid(1) Returned by (simp add: patchAndReport_def)
      moreover have "(\<forall>a dd. Exec a dd \<notin> set (mid @ [Print (MsgPatchError e), Print (MsgCreated p)]))"
        "(\<forall>q. Remove q \<notin> set (mid @ [Print (MsgPatchError e), Print (MsgCreated p)]))"
        using mid(2,3) by simp_all
      ultimately show ?thesis by blast
    qed
  qed
qed

lemma runEslint_log:
  "\<exists>m. log (snd (runEslint env d loc w)) =
      log w @ (if hasEslint loc
               then [Exec [''npx'', ''@biomejs/biome'', ''migrate'', ''eslint'', ''--write''] d, Print m]
               else [])"
  by (auto simp: runEslint_def migrateEslintConfig_def cmdRun_def split: prod.splits option.splits)

lemma runPrettier_log:
  "\<exists>m. log (snd (runPrettier env d loc w)) =
      log w @ (if hasPrettier loc
               then [Exec [''npx'', ''@biomejs/biome'', ''migrate'', ''prettier'', ''--write''] d, Print m]
               else [])"
  by (auto simp: runPrettier_def migratePrettierConfig_def cmdRun_def split: prod.splits option.splits)

text \<open>The state in which the patcher is called, once the output file exists.\<close>

lemma migrateDir_created:
  assumes "envStat env (fs w) (d @ [''biome.json'']) = None \<or>
           fst (envWriteFile env (fs w) (d @ [''biome.json'']) minimalBiomeConfig) = None"
  shows "\<exists>w5 pre. migrateDir env d loc w = patchAndReport env (d @ [''biome.json'']) w5 \<and>
           log w5 = log w @ pre \<and>
           (Exec [''npx'', ''@biomejs/biome'', ''migrate'', ''eslint'', ''--write''] d \<in> set pre
              \<longleftrightarrow> hasEslint loc) \<and>
           (Exec [''npx'', ''@biomejs/biome'', ''migrate'', ''prettier'', ''--write''] d \<in> set pre
              \<longleftrightarrow> hasPrettier loc) \<and>
           (\<forall>q. Remove q \<notin> set pre)"
proof -
  let ?bp = "d @ [''biome.json'']"
  let ?w2 = "emit (Stat ?bp) (println (MsgMigrating d) w)"
  define w3 where "w3 = (if envStat env (fs w) ?bp \<noteq> None
                         then snd (osWriteFile env ?bp minimalBiomeConfig ?w2) else ?w2)"
  define head where "head = [Print (MsgMigrating d), Stat ?bp] @
      (if envStat env (fs w) ?bp \<noteq> None then [WriteFile ?bp minimalBiomeConfig] else [])"
  have l3: "log w3 = log w @ head"
    by (simp add: w3_def head_def osWriteFile_def split: prod.splits)
  let ?w4 = "snd (runEslint env d loc w3)"
  let ?w5 = "snd (runPrettier env d loc ?w4)"
  have eq: "migrateDir env d loc w = patchAndReport env ?bp ?w5"
    unfolding migrateDir_never_removes
    using assms
    by (auto simp: migrateDirAlwaysPatch_def Let_def osStat_def osWriteFile_def w3_def
        split_beta split: option.splits)
  obtain m1 where m1: "log ?w4 = log w3 @ (if hasEslint loc
      then [Exec [''npx'', ''@biomejs/biome'', ''migrate'', ''eslint'', ''--write''] d, Print m1]
      else [])"
    using runEslint_log[of env d loc w3] by blast
  obtain m2 where m2: "log ?w5 = log ?w4 @ (if hasPrettier loc
      then [Exec [''npx'', ''@biomejs/biome'', ''migrate'', ''prettier'', ''--write''] d, Print m2]
      else [])"
    using runPrettier_log[of env d loc ?w4] by blast
  define pre where "pre = head @
      (if hasEslint loc
       then [Exec [''npx'', ''@biomejs/biome'', ''migrate'', ''eslint'', ''--write''] d, Print m1]
       else []) @
      (if hasPrettier loc
       then [Exec [''npx'', ''@biomejs/biome'', ''migrate'', ''prettier'', ''--write''] d, Print m2]
       else [])"
  have l5: "log ?w5 = log w @ pre" using l3 m1 m2 by (simp add: pre_def)
  have e: "Exec [''npx'', ''@biomejs/biome'', ''migrate'', ''eslint'', ''--write''] d \<in> set pre
      \<longleftrightarrow> hasEslint loc" by (simp add: pre_def head_def)
  have p: "Exec [''npx'', ''@biomejs/biome'', ''migrate'', ''prettier'', ''--write''] d \<in> set pre
      \<longleftrightarrow> hasPrettier loc" by (simp add: pre_def head_def)
  have r: "\<forall>q. Remove q \<notin> set pre" by (simp add: pre_def head_def)
  show ?thesis using eq l5 e p r by blast
qed

lemma migrateDir_log_no_remove:
  "\<exists>evs. log (snd (migrateDir env d loc w)) = log w @ evs \<and> (\<forall>q. Remove q \<notin> set evs)"
proof (cases "envStat env (fs w) (d @ [''biome.json'']) = None \<or>
           fst (envWriteFile env (fs w) (d @ [''biome.json'']) minimalBiomeConfig) = None")
  case True
  from migrateDir_created[OF True, of loc] obtain w5 pre where
    a: "migrateDir env d loc w = patchAndReport env (d @ [''biome.json'']) w5"
    "log w5 = log w @ pre" "\<forall>q. Remove q \<notin> set pre" by blast
  from patchAndReport_log[of env "d @ [''biome.json'']" w5] obtain post where
    b: "log (snd (patchAndReport env (d @ [''biome.json'']) w5)) =
        log w5 @ ReadFile (d @ [''biome.json'']) # post" "\<forall>q. Remove q \<notin> set post" by blast
  have "log (snd (migrateDir env d loc w)) = log w @ (pre @ ReadFile (d @ [''biome.json'']) # post)"
    using a b by simp
  moreover have "\<forall>q. Remove q \<notin> set (pre @ ReadFile (d @ [''biome.json'']) # post)"
    using a(3) b(2) by simp
  ultimately show ?thesis by blast
next
  case False
  then obtain e1 e2 where 1: "envStat env (fs w) (d @ [''biome.json'']) = Some e1"
    and 2: "fst (envWriteFile env (fs w) (d @ [''biome.json'']) minimalBiomeConfig) = Some e2"
    by auto
  have "log (snd (migrateDir env d loc w)) =
      log w @ [Print (MsgMigrating d), Stat (d @ [''biome.json'']),
               WriteFile (d @ [''biome.json'']) minimalBiomeConfig, Print (MsgCreateError e2)]"
    unfolding migrateDir_never_removes using 1 2
    by (simp add: migrateDirAlwaysPatch_def Let_def osStat_def osWriteFile_def split_beta)
  then show ?thesis by auto
qed

text \<open>
  Claim C10.  Every record of a scan result has at least one of its two flags set.  The
  body of the migration loop is equal to the body without the branch that removes the
  output file, and it never calls \<^verbatim>\<open>os.Remove\<close>.  Once the output file exists (it was
  there, or it was created), the body ends with the call of the patcher: each migration
  is launched exactly when its flag is set, whatever the migrations return the patcher
  then reads the output file, and no migration is launched after that read.
\<close>

theorem records_flagged_and_patch_unconditional:
  "(\<forall>(k, l) \<in> set (fst (findConfigs root t)). hasEslint l \<or> hasPrettier l) \<and>
   migrateDir env d loc w = migrateDirAlwaysPatch env d loc w \<and>
   (\<exists>evs. log (snd (migrateDir env d loc w)) = log w @ evs \<and> (\<forall>q. Remove q \<notin> set evs)) \<and>
   (envStat env (fs w) (d @ [''biome.json'']) = None \<or>
    fst (envWriteFile env (fs w) (d @ [''biome.json'']) minimalBiomeConfig) = None \<longrightarrow>
      (\<exists>w5 pre post.
         migrateDir env d loc w = patchAndReport env (d @ [''biome.json'']) w5 \<and>
         log w5 = log w @ pre \<and>
         log (snd (migrateDir env d loc w)) =
           log w @ pre @ ReadFile (d @ [''biome.json'']) # post \<and>
         (Exec [''npx'', ''@biomejs/biome'', ''migrate'', ''eslint'', ''--write''] d \<in> set pre
            \<longleftrightarrow> hasEslint loc) \<and>
         (Exec [''npx'', ''@biomejs/biome'', ''migrate'', ''prettier'', ''--write''] d \<in> set pre
            \<longleftrightarrow> hasPrettier loc) \<and>
         (\<forall>a dd. Exec a dd \<notin> set post)))"
proof (intro conjI impI)
  show "\<forall>(k, l) \<in> set (fst (findConfigs root t)). hasEslint l \<or> hasPrettier l"
    by (rule findConfigs_flags)
  show "migrateDir env d loc w = migrateDirAlwaysPatch env d loc w"
    by (rule migrateDir_never_removes)
  show "\<exists>evs. log (snd (migrateDir env d loc w)) = log w @ evs \<and> (\<forall>q. Remove q \<notin> set evs)"
    by (rule migrateDir_log_no_remove)
  assume c: "envStat env (fs w) (d @ [''biome.json'']) = None \<or>
    fst (envWriteFile env (fs w) (d @ [''biome.json'']) minimalBiomeConfig) = None"
  from migrateDir_created[OF c, of loc] obtain w5 pre where
    a: "migrateDir env d loc w = patchAndReport env (d @ [''biome.json'']) w5"
    "log w5 = log w @ pre"
    "Exec [''npx'', ''@biomejs/biome'', ''migrate'', ''eslint'', ''--write''] d \<in> set pre
       \<longleftrightarrow> hasEslint loc"
    "Exec [''npx'', ''@biomejs/biome'', ''migrate'', ''prettier'', ''--write''] d \<in> set pre
       \<longleftrightarrow> hasPrettier loc" by blast
  from patchAndReport_log[of env "d @ [''biome.json'']" w5] obtain post where
    b: "log (snd (patchAndReport env (d @ [''biome.json'']) w5)) =
        log w5 @ ReadFile (d @ [''biome.json'']) # post" "\<forall>a dd. Exec a dd \<notin> set post" by blast
  have "log (snd (migrateDir env d loc w)) = log w @ pre @ ReadFile (d @ [''biome.json'']) # post"
    using a(1,2) b(1) by simp
  then show "\<exists>w5 pre post.
         migrateDir env d loc w = patchAndReport env (d @ [''biome.json'']) w5 \<and>
         log w5 = log w @ pre \<and>
         log (snd (migrateDir env d loc w)) =
           log w @ pre @ ReadFile (d @ [''biome.json'']) # post \<and>
         (Exec [''npx'', ''@biomejs/biome'', ''migrate'', ''eslint'', ''--write''] d \<in> set pre
            \<longleftrightarrow> hasEslint loc) \<and>
         (Exec [''npx'', ''@biomejs/biome'', ''migrate'', ''prettier'', ''--write''] d \<in> set pre
            \<longleftrightarrow> hasPrettier loc) \<and>
         (\<forall>a dd. Exec a dd \<notin> set post)"
    using a b(2) by blast
qed


theorem records_flagged_and_patch_unconditional_witness:
  "length (fst (findConfigs [''home'', ''proj''] sampleTree)) = 3 \<and>
   list_all (\<lambda>(k, l). hasEslint l \<or> hasPrettier l) (fst (findConfigs [''home'', ''proj''] sampleTree)) \<and>
   migrateDir (sampleEnv sampleTree) [''home'', ''proj'', ''a'']
     \<lparr>dir = [''home'', ''proj'', ''a''], hasEslint = True, hasPrettier = False\<rparr> emptyWorld =
   migrateDirAlwaysPatch (sampleEnv sampleTree) [''home'', ''proj'', ''a'']
     \<lparr>dir = [''home'', ''proj'', ''a''], hasEslint = True, hasPrettier = False\<rparr> emptyWorld \<and>
   Exec [''npx'', ''@biomejs/biome'', ''migrate'', ''eslint'', ''--write''] [''home'', ''proj'', ''a'']
     \<in> set (log (snd (migrateDir (sampleEnv sampleTree) [''home'', ''proj'', ''a'']
          \<lparr>dir = [''home'', ''proj'', ''a''], hasEslint = True, hasPrettier = False\<rparr> emptyWorld))) \<and>
   ReadFile [''home'', ''proj'', ''a'', ''biome.json'']
     \<in> set (log (snd (migrateDir (sampleEnv sampleTree) [''home'', ''proj'', ''a'']
          \<lparr>dir = [''home'', ''proj'', ''a''], hasEslint = True, hasPrettier = False\<rparr> emptyWorld)))"
proof -
  let ?E = "sampleEnv sampleTree"
  let ?d = "[''home'', ''proj'', ''a'']"
  let ?loc = "\<lparr>dir = [''home'', ''proj'', ''a''], hasEslint = True, hasPrettier = False\<rparr>"
  note T = records_flagged_and_patch_unconditional[of "[''home'', ''proj'']" sampleTree ?E ?d ?loc emptyWorld]
  have flags: "list_all (\<lambda>(k, l). hasEslint l \<or> hasPrettier l) (fst (findConfigs [''home'', ''proj''] sampleTree))"
    using T[THEN conjunct1] by (simp add: list_all_iff)
  have eq: "migrateDir ?E ?d ?loc emptyWorld = migrateDirAlwaysPatch ?E ?d ?loc emptyWorld"
    by (rule T[THEN conjunct2, THEN conjunct1])
  have created: "envStat ?E (fs emptyWorld) (?d @ [''biome.json'']) = None \<or>
      fst (envWriteFile ?E (fs emptyWorld) (?d @ [''biome.json'']) minimalBiomeConfig) = None"
    by (simp add: sampleEnv_def)
  from T[THEN conjunct2, THEN conjunct2, THEN conjunct2, THEN mp, OF created]
  obtain w5 pre post where
    l: "log (snd (migrateDir ?E ?d ?loc emptyWorld)) =
          log emptyWorld @ pre @ ReadFile (?d @ [''biome.json'']) # post"
    and e: "Exec [''npx'', ''@biomejs/biome'', ''migrate'', ''eslint'', ''--write''] ?d \<in> set pre
          \<longleftrightarrow> hasEslint ?loc"
    by (elim exE conjE)
  have ex: "Exec [''npx'', ''@biomejs/biome'', ''migrate'', ''eslint'', ''--write''] ?d
      \<in> set (log (snd (migrateDir ?E ?d ?loc emptyWorld)))"
    using e unfolding l by simp
  have rd: "ReadFile [''home'', ''proj'', ''a'', ''biome.json'']
      \<in> set (log (snd (migrateDir ?E ?d ?loc emptyWorld)))"
    unfolding l by simp
  have len: "length (fst (findConfigs [''home'', ''proj''] sampleTree)) = 3"
    by (simp add: findConfigs_sampleTree)
  show ?thesis using len flags eq ex rd by (intro conjI)
qed

text \<open>
  The exit status of \<^verbatim>\<open>main\<close>: 1 exactly when \<^verbatim>\<open>-input\<close> is empty, the path cannot be
  resolved or the scan returns an error; otherwise 0, unless the patcher panicked.
\<close>

lemma main_exit_status:
  "fst (main env inputDir dryRun w) =
     (if inputDir = [] then Exit 1
      else case envAbs env inputDir of
             Inl err \<Rightarrow> Exit 1
           | Inr absInputDir \<Rightarrow>
               (case findConfigs absInputDir (envTree env (fs w) absInputDir) of
                  (locs, RNil) \<Rightarrow>
                    if length locs \<noteq> 0 \<and>
                       fst (migrateAll env dryRun (envRange env 1 locs)
                             (reportLocations (envRange env 0 locs)
                                (println (MsgFound (length locs)) w)))
                    then Panic else Exit 0
                | (locs, err) \<Rightarrow> Exit 1))"
proof -
  have "snd (findConfigs p t) \<noteq> RPanic" for p t
    by (simp add: findConfigs_error split: list.splits)
  then have np: "findConfigs p t \<noteq> (locs, RPanic)" for p t locs
    by (metis snd_conv)
  show ?thesis
    using np
    by (auto simp: main_def Let_def split: sum.splits prod.splits walk_ret.splits bool.splits)
qed

section \<open>Pruning\<close>

lemma base_append: "base (p @ n # ns) = base (n # ns)"
  by (simp add: base_def)

lemma unskippedUpTo_prefix:
  "unskippedUpTo name (ns @ rest) \<Longrightarrow> \<not> skippedName (if ns = [] then name else last ns)"
proof (induction ns arbitrary: name)
  case Nil
  then show ?case by (cases rest) simp_all
next
  case (Cons n ns)
  have "unskippedUpTo n (ns @ rest)" using Cons.prems by simp
  from Cons.IH[OF this] show ?case by simp
qed

lemma unskippedAbove_prefix:
  "unskippedAbove name (ns @ rest) \<Longrightarrow> rest \<noteq> [] \<Longrightarrow>
     \<not> skippedName (if ns = [] then name else last ns)"
proof (induction ns arbitrary: name)
  case Nil
  then show ?case by (cases rest) simp_all
next
  case (Cons n ns)
  have "unskippedAbove n (ns @ rest)" using Cons.prems by simp
  from Cons.IH[OF this Cons.prems(2)] show ?case by simp
qed

lemma base_of_append: "base (root @ ns) = (if ns = [] then base root else last ns)"
  by (simp add: base_def)

lemma keys_ensureLocation: "fst ` set (ensureLocation d locs) \<subseteq> insert d (fst ` set locs)"
  by (auto simp: ensureLocation_def dom_update)

lemma walkFn_file:
  "walkFn q (Some \<lparr>Name = name, IsDir = False\<rparr>) None s =
     (RNil,
      if name \<in> set prettierConfigFiles
      then AList.map_entry (filepathDir q) (\<lambda>l. l\<lparr>hasPrettier := True\<rparr>)
             (ensureLocation (filepathDir q)
               (if name \<in> set eslintConfigFiles
                then AList.map_entry (filepathDir q) (\<lambda>l. l\<lparr>hasEslint := True\<rparr>)
                       (ensureLocation (filepathDir q) s)
                else s))
      else if name \<in> set eslintConfigFiles
           then AList.map_entry (filepathDir q) (\<lambda>l. l\<lparr>hasEslint := True\<rparr>)
                  (ensureLocation (filepathDir q) s)
           else s)"
  by (simp add: walkFn_def Let_def)

lemma keys_mark:
  "fst ` set (AList.map_entry d f (ensureLocation d l)) \<subseteq> insert d (fst ` set l)"
  unfolding dom_map_entry by (rule keys_ensureLocation)

lemma walkFn_file_keys:
  "fst ` set (snd (walkFn q (Some \<lparr>Name = name, IsDir = False\<rparr>) None s))
     \<subseteq> insert (filepathDir q) (fst ` set s)"
proof -
  define d where "d = filepathDir q"
  define l1 where "l1 = AList.map_entry d (\<lambda>l. l\<lparr>hasEslint := True\<rparr>) (ensureLocation d s)"
  define l2 where "l2 = AList.map_entry d (\<lambda>l. l\<lparr>hasPrettier := True\<rparr>) (ensureLocation d l1)"
  define l3 where "l3 = AList.map_entry d (\<lambda>l. l\<lparr>hasPrettier := True\<rparr>) (ensureLocation d s)"
  have 1: "fst ` set l1 \<subseteq> insert d (fst ` set s)" unfolding l1_def by (rule keys_mark)
  have "fst ` set l2 \<subseteq> insert d (fst ` set l1)" unfolding l2_def by (rule keys_mark)
  then have 2: "fst ` set l2 \<subseteq> insert d (fst ` set s)" using 1 by blast
  have 3: "fst ` set l3 \<subseteq> insert d (fst ` set s)" unfolding l3_def by (rule keys_mark)
  have 4: "fst ` set s \<subseteq> insert d (fst ` set s)" by blast
  have "snd (walkFn q (Some \<lparr>Name = name, IsDir = False\<rparr>) None s) =
      (if name \<in> set prettierConfigFiles
       then (if name \<in> set eslintConfigFiles then l2 else l3)
       else (if name \<in> set eslintConfigFiles then l1 else s))"
    unfolding walkFn_file l1_def l2_def l3_def d_def by simp
  then show ?thesis unfolding d_def[symmetric] using 1 2 3 4 by presburger
qed

lemma walk_keys:
  "\<forall>k \<in> fst ` set (snd (walk walkFn p t s)).
      k \<in> fst ` set s \<or> (t = File \<and> k = filepathDir p) \<or>
      (\<exists>ms. k = p @ ms \<and> unskippedUpTo (base p) ms)"
  "\<not> skippedName (base p) \<longrightarrow>
   (\<forall>k \<in> fst ` set (snd (walkNames walkFn p es s)).
      k \<in> fst ` set s \<or> (\<exists>ms. k = p @ ms \<and> unskippedUpTo (base p) ms))"
proof (induction p t s and p es s rule: walk_induct)
  case (1 p t s)
  show ?case
  proof (cases t)
    case File
    have "fst ` set (snd (walk walkFn p File s)) \<subseteq> insert (filepathDir p) (fst ` set s)"
      using walkFn_file_keys[of p "base p" s] by simp
    then have "\<forall>k \<in> fst ` set (snd (walk walkFn p File s)).
        k \<in> fst ` set s \<or> k = filepathDir p" by blast
    then show ?thesis unfolding File by blast
  next
    case (Dir es)
    then show ?thesis using 1 by simp
  next
    case (Unreadable e)
    then show ?thesis by (simp add: walkFn_error)
  next
    case (NoStat e)
    then show ?thesis by (simp add: walkFn_error)
  qed
next
  case (2 p es s)
  show ?case
  proof (cases "skippedName (base p)")
    case True
    then show ?thesis by (simp add: walkFn_dir)
  next
    case False
    then have eq: "walk walkFn p (Dir es) s = walkNames walkFn p es s" by (simp add: walkFn_dir)
    have "\<forall>k \<in> fst ` set (snd (walkNames walkFn p es s)).
        k \<in> fst ` set s \<or> (\<exists>ms. k = p @ ms \<and> unskippedUpTo (base p) ms)"
      using 2[of s] False by (rule mp)
    then show ?thesis unfolding eq by blast
  qed
next
  case (3 p s)
  show ?case by simp
next
  case (4 p name t es s)
  show ?case
  proof (intro impI ballI)
    fix k
    assume ok: "\<not> skippedName (base p)"
      and k: "k \<in> fst ` set (snd (walkNames walkFn p ((name, t) # es) s))"
    obtain r s1 where w: "walk walkFn (p @ [name]) t s = (r, s1)"
      by (cases "walk walkFn (p @ [name]) t s")
    have ih1: "\<forall>k \<in> fst ` set s1.
        k \<in> fst ` set s \<or> (t = File \<and> k = filepathDir (p @ [name])) \<or>
        (\<exists>ms. k = (p @ [name]) @ ms \<and> unskippedUpTo (base (p @ [name])) ms)"
      using 4(1)[of s] unfolding w snd_conv .
    have child: "k' \<in> fst ` set s \<or> (\<exists>ms. k' = p @ ms \<and> unskippedUpTo (base p) ms)"
      if "k' \<in> fst ` set s1" for k'
    proof -
      from bspec[OF ih1 that]
      consider "k' \<in> fst ` set s" | "t = File" "k' = filepathDir (p @ [name])"
        | ms where "k' = (p @ [name]) @ ms" "unskippedUpTo (base (p @ [name])) ms"
        by (elim disjE conjE exE)
      then show ?thesis
      proof cases
        case 1
        then show ?thesis by (rule disjI1)
      next
        case 2
        have "k' = p @ []" using 2(2) by (simp add: filepathDir_def)
        moreover have "unskippedUpTo (base p) []" using ok by simp
        ultimately have "\<exists>ms. k' = p @ ms \<and> unskippedUpTo (base p) ms" by (intro exI conjI)
        then show ?thesis by (rule disjI2)
      next
        case 3
        have "k' = p @ (name # ms)" using 3(1) by simp
        moreover have "unskippedUpTo (base p) (name # ms)" using 3(2) ok by (simp add: base_def)
        ultimately have "\<exists>ms. k' = p @ ms \<and> unskippedUpTo (base p) ms" by (intro exI conjI)
        then show ?thesis by (rule disjI2)
      qed
    qed
    have "k \<in> fst ` set s1 \<or> (\<exists>ms. k = p @ ms \<and> unskippedUpTo (base p) ms)"
    proof (cases "r = RNil \<or> (r = RSkipDir \<and> t \<noteq> File)")
      case True
      then have eq: "walkNames walkFn p ((name, t) # es) s = walkNames walkFn p es s1"
        using w by (simp add: walkNames_Cons)
      have "\<forall>k \<in> fst ` set (snd (walkNames walkFn p es s1)).
          k \<in> fst ` set s1 \<or> (\<exists>ms. k = p @ ms \<and> unskippedUpTo (base p) ms)"
        using 4(2)[of s1] ok by (rule mp)
      moreover have "k \<in> fst ` set (snd (walkNames walkFn p es s1))" using k unfolding eq .
      ultimately show ?thesis by (rule bspec)
    next
      case False
      then have "walkNames walkFn p ((name, t) # es) s = (r, s1)"
        using w by (auto simp add: walkNames_Cons)
      then have "k \<in> fst ` set s1" using k by (simp only: snd_conv)
      then show ?thesis by (rule disjI1)
    qed
    then show "k \<in> fst ` set s \<or> (\<exists>ms. k = p @ ms \<and> unskippedUpTo (base p) ms)"
    proof
      assume "k \<in> fst ` set s1"
      then show ?thesis by (rule child)
    next
      assume "\<exists>ms. k = p @ ms \<and> unskippedUpTo (base p) ms"
      then show ?thesis by (rule disjI2)
    qed
  qed
qed


lemma traced_ret: "fst (traced fn p i e sv) = fst (fn p i e (fst sv))"
  by (cases "fn p i e (fst sv)") (simp add: traced_def)

lemma traced_visited: "snd (snd (traced fn p i e sv)) = snd sv @ [p]"
  by (cases "fn p i e (fst sv)") (simp add: traced_def)

lemma traced_dir_skipped:
  "skippedName name \<Longrightarrow>
     traced walkFn p (Some \<lparr>Name = name, IsDir = True\<rparr>) None sv = (RSkipDir, fst sv, snd sv @ [p])"
  by (simp add: traced_def walkFn_dir)

lemma traced_dir_unskipped:
  "\<not> skippedName name \<Longrightarrow>
     traced walkFn p (Some \<lparr>Name = name, IsDir = True\<rparr>) None sv = (RNil, fst sv, snd sv @ [p])"
  by (simp add: traced_def walkFn_dir)

lemma walk_visited:
  "\<forall>q \<in> set (snd (snd (walk (traced walkFn) p t sv))).
      q \<in> set (snd sv) \<or> (\<exists>ms. q = p @ ms \<and> unskippedAbove (base p) ms)"
  "\<not> skippedName (base p) \<longrightarrow>
   (\<forall>q \<in> set (snd (snd (walkNames (traced walkFn) p es sv))).
      q \<in> set (snd sv) \<or> (\<exists>ms. q = p @ ms \<and> unskippedAbove (base p) ms))"
proof (induction p t sv and p es sv rule: walk_induct)
  case (1 p t sv)
  have here: "\<exists>ms. p = p @ ms \<and> unskippedAbove (base p) ms"
  proof (intro exI conjI)
    show "p = p @ []" by simp
    show "unskippedAbove (base p) []" by simp
  qed
  have "snd (snd (walk (traced walkFn) p t sv)) = snd sv @ [p]"
    using 1 by (cases t) (simp_all add: traced_visited)
  then show ?case using here by auto
next
  case (2 p es sv)
  have here: "\<exists>ms. p = p @ ms \<and> unskippedAbove (base p) ms"
  proof (intro exI conjI)
    show "p = p @ []" by simp
    show "unskippedAbove (base p) []" by simp
  qed
  show ?case
  proof (cases "skippedName (base p)")
    case True
    then have "snd (snd (walk (traced walkFn) p (Dir es) sv)) = snd sv @ [p]"
      by (simp add: traced_dir_skipped)
    then show ?thesis using here by auto
  next
    case False
    let ?sv1 = "(fst sv, snd sv @ [p])"
    have eq: "walk (traced walkFn) p (Dir es) sv = walkNames (traced walkFn) p es ?sv1"
      using False by (simp add: traced_dir_unskipped)
    have ih: "\<forall>q \<in> set (snd (snd (walkNames (traced walkFn) p es ?sv1))).
        q \<in> set (snd ?sv1) \<or> (\<exists>ms. q = p @ ms \<and> unskippedAbove (base p) ms)"
      using 2[of ?sv1] False by (rule mp)
    show ?thesis unfolding eq
    proof
      fix q assume "q \<in> set (snd (snd (walkNames (traced walkFn) p es ?sv1)))"
      from bspec[OF ih this] have "q \<in> set (snd sv) \<or> q = p \<or>
          (\<exists>ms. q = p @ ms \<and> unskippedAbove (base p) ms)" by auto
      then show "q \<in> set (snd sv) \<or> (\<exists>ms. q = p @ ms \<and> unskippedAbove (base p) ms)"
        using here by blast
    qed
  qed
next
  case (3 p sv)
  show ?case by simp
next
  case (4 p name t es sv)
  show ?case
  proof (intro impI ballI)
    fix q
    assume ok: "\<not> skippedName (base p)"
      and q: "q \<in> set (snd (snd (walkNames (traced walkFn) p ((name, t) # es) sv)))"
    obtain r sv1 where w: "walk (traced walkFn) (p @ [name]) t sv = (r, sv1)"
      by (cases "walk (traced walkFn) (p @ [name]) t sv")
    have ih1: "\<forall>q \<in> set (snd sv1).
        q \<in> set (snd sv) \<or>
        (\<exists>ms. q = (p @ [name]) @ ms \<and> unskippedAbove (base (p @ [name])) ms)"
      using 4(1)[of sv] unfolding w snd_conv .
    have child: "q' \<in> set (snd sv) \<or> (\<exists>ms. q' = p @ ms \<and> unskippedAbove (base p) ms)"
      if "q' \<in> set (snd sv1)" for q'
    proof -
      from bspec[OF ih1 that]
      consider "q' \<in> set (snd sv)"
        | ms where "q' = (p @ [name]) @ ms" "unskippedAbove (base (p @ [name])) ms"
        by (elim disjE conjE exE)
      then show ?thesis
      proof cases
        case 1
        then show ?thesis by (rule disjI1)
      next
        case 2
        have "q' = p @ (name # ms)" using 2(1) by simp
        moreover have "unskippedAbove (base p) (name # ms)" using 2(2) ok by (simp add: base_def)
        ultimately have "\<exists>ms. q' = p @ ms \<and> unskippedAbove (base p) ms" by (intro exI conjI)
        then show ?thesis by (rule disjI2)
      qed
    qed
    have "q \<in> set (snd sv1) \<or> (\<exists>ms. q = p @ ms \<and> unskippedAbove (base p) ms)"
    proof (cases "r = RNil \<or> (r = RSkipDir \<and> t \<noteq> File)")
      case True
      then have eq: "walkNames (traced walkFn) p ((name, t) # es) sv =
          walkNames (traced walkFn) p es sv1"
        using w by (simp add: walkNames_Cons)
      have "\<forall>q \<in> set (snd (snd (walkNames (traced walkFn) p es sv1))).
          q \<in> set (snd sv1) \<or> (\<exists>ms. q = p @ ms \<and> unskippedAbove (base p) ms)"
        using 4(2)[of sv1] ok by (rule mp)
      moreover have "q \<in> set (snd (snd (walkNames (traced walkFn) p es sv1)))"
        using q unfolding eq .
      ultimately show ?thesis by (rule bspec)
    next
      case False
      then have "walkNames (traced walkFn) p ((name, t) # es) sv = (r, sv1)"
        using w by (auto simp add: walkNames_Cons)
      then have "q \<in> set (snd sv1)" using q by (simp only: snd_conv)
      then show ?thesis by (rule disjI1)
    qed
    then show "q \<in> set (snd sv) \<or> (\<exists>ms. q = p @ ms \<and> unskippedAbove (base p) ms)"
    proof
      assume "q \<in> set (snd sv1)"
      then show ?thesis by (rule child)
    next
      assume "\<exists>ms. q = p @ ms \<and> unskippedAbove (base p) ms"
      then show ?thesis by (rule disjI2)
    qed
  qed
qed

lemma findConfigs_keys:
  assumes "k \<in> fst ` set (fst (findConfigs root t))"
  shows "(t = File \<and> k = filepathDir root) \<or> (\<exists>ms. k = root @ ms \<and> unskippedUpTo (base root) ms)"
proof -
  obtain r s where w: "walk walkFn root t [] = (r, s)" by (cases "walk walkFn root t []")
  then have "fst (findConfigs root t) = s" by (simp add: findConfigs_def Walk_eq)
  then have "k \<in> fst ` set s" using assms by simp
  moreover have "\<forall>k \<in> fst ` set s. k \<in> fst ` set ([] :: locations) \<or>
      (t = File \<and> k = filepathDir root) \<or> (\<exists>ms. k = root @ ms \<and> unskippedUpTo (base root) ms)"
    using walk_keys(1)[of root t "[]"] unfolding w snd_conv .
  ultimately show ?thesis by auto
qed

lemma visitedPaths_shape:
  assumes "q \<in> set (visitedPaths root t)"
  shows "\<exists>ms. q = root @ ms \<and> unskippedAbove (base root) ms"
proof -
  obtain r sv where w: "walk (traced walkFn) root t ([], []) = (r, sv)"
    by (cases "walk (traced walkFn) root t ([], [])")
  then have "visitedPaths root t = snd sv" by (simp add: visitedPaths_def Walk_eq)
  then have "q \<in> set (snd sv)" using assms by simp
  moreover have "\<forall>q \<in> set (snd sv). q \<in> set (snd (([], []) :: locations \<times> path list)) \<or>
      (\<exists>ms. q = root @ ms \<and> unskippedAbove (base root) ms)"
    using walk_visited(1)[of root t "([], [])"] unfolding w snd_conv .
  ultimately show ?thesis by auto
qed

text \<open>
  Claim C4.  Take any path at or below the scan root whose base name is on the skip
  list.  Neither that path nor any path beneath it is a key of the scan result, and no
  path beneath it is ever passed to the callback, whatever the tree holds there.
\<close>

theorem skipped_directories_not_scanned:
  assumes "skippedName (base (root @ ns))"
  shows "root @ ns @ rest \<notin> fst ` set (fst (findConfigs root t)) \<and>
         (rest \<noteq> [] \<longrightarrow> root @ ns @ rest \<notin> set (visitedPaths root t))"
proof -
  have name: "skippedName (if ns = [] then base root else last ns)"
    using assms unfolding base_of_append .
  have keys: "root @ ns @ rest \<notin> fst ` set (fst (findConfigs root t))"
  proof
    assume "root @ ns @ rest \<in> fst ` set (fst (findConfigs root t))"
    from findConfigs_keys[OF this]
    consider "root @ ns @ rest = filepathDir root"
      | ms where "root @ ns @ rest = root @ ms" "unskippedUpTo (base root) ms"
      by (elim disjE conjE exE)
    then show False
    proof cases
      case 1
      then have "length (root @ ns @ rest) = length (butlast root)"
        unfolding filepathDir_def by (rule arg_cong)
      then have len: "length root + (length ns + length rest) = length root - 1" by simp
      then have "length root = 0" by arith
      then have "length ns = 0" using len by arith
      have "root = []" using \<open>length root = 0\<close> by simp
      moreover have "ns = []" using \<open>length ns = 0\<close> by simp
      ultimately have "skippedName ''/''" using name by (simp add: base_def)
      then show False by (simp add: skippedName_def)
    next
      case 2
      have "ns @ rest = ms" using 2(1) by (simp only: same_append_eq)
      then have "unskippedUpTo (base root) (ns @ rest)" using 2(2) by (simp only:)
      from unskippedUpTo_prefix[OF this] show False using name by (rule notE)
    qed
  qed
  have visited: "root @ ns @ rest \<notin> set (visitedPaths root t)" if rest: "rest \<noteq> []"
  proof
    assume "root @ ns @ rest \<in> set (visitedPaths root t)"
    from visitedPaths_shape[OF this] obtain ms where
      ms: "root @ ns @ rest = root @ ms" "unskippedAbove (base root) ms" by (elim exE conjE)
    have "ns @ rest = ms" using ms(1) by (simp only: same_append_eq)
    then have "unskippedAbove (base root) (ns @ rest)" using ms(2) by (simp only:)
    from unskippedAbove_prefix[OF this rest] show False using name by (rule notE)
  qed
  show ?thesis using keys visited by (intro conjI impI)
qed

lemma visitedPaths_sampleTree:
  "visitedPaths [''home'', ''proj''] sampleTree =
     [[''home'', ''proj''],
      [''home'', ''proj'', ''a''],
      [''home'', ''proj'', ''a'', ''.eslintrc.json''],
      [''home'', ''proj'', ''a'', ''node_modules''],
      [''home'', ''proj'', ''b''],
      [''home'', ''proj'', ''b'', ''prettier.config.js''],
      [''home'', ''proj'', ''c''],
      [''home'', ''proj'', ''c'', ''.prettierrc''],
      [''home'', ''proj'', ''c'', ''eslint.config.js''],
      [''home'', ''proj'', ''locked'']]"
  by (simp add: visitedPaths_def traced_def scan_defs sampleTree_def)

theorem skipped_directories_not_scanned_witness:
  "[''home'', ''proj'', ''a'', ''node_modules''] \<in> set (visitedPaths [''home'', ''proj''] sampleTree) \<and>
   [''home'', ''proj'', ''a'', ''node_modules'']
      \<notin> fst ` set (fst (findConfigs [''home'', ''proj''] sampleTree)) \<and>
   [''home'', ''proj'', ''a'', ''node_modules'', ''.eslintrc.json'']
      \<notin> set (visitedPaths [''home'', ''proj''] sampleTree)"
proof -
  have s: "skippedName (base ([''home'', ''proj''] @ [''a'', ''node_modules'']))"
    by (simp add: base_def skippedName_def)
  from skipped_directories_not_scanned[OF s, of "[]" sampleTree]
  have 1: "[''home'', ''proj'', ''a'', ''node_modules'']
      \<notin> fst ` set (fst (findConfigs [''home'', ''proj''] sampleTree))" by simp
  from skipped_directories_not_scanned[OF s, of "[''.eslintrc.json'']" sampleTree]
  have 2: "[''home'', ''proj'', ''a'', ''node_modules'', ''.eslintrc.json'']
      \<notin> set (visitedPaths [''home'', ''proj''] sampleTree)" by simp
  have 3: "[''home'', ''proj'', ''a'', ''node_modules''] \<in> set (visitedPaths [''home'', ''proj''] sampleTree)"
    by (simp add: visitedPaths_sampleTree)
  show ?thesis using 1 2 3 by (intro conjI)
qed

section \<open>Classification\<close>

lemma holdsFileFrom_Nil [simp]: "holdsFileFrom names [] = False"
  by (simp add: holdsFileFrom_def list_ex_iff)

lemma holdsFileFrom_Cons:
  "holdsFileFrom names ((n, c) # es) = ((c = File \<and> n \<in> set names) \<or> holdsFileFrom names es)"
  by (auto simp: holdsFileFrom_def list_ex_iff)

lemma merged_Nil: "merged d [] r = r"
  by (cases r) (simp_all add: merged_def expectedLocation_def)

lemma merged_other: "c \<noteq> File \<Longrightarrow> merged d ((n, c) # es) r = merged d es r"
  by (cases r) (simp_all add: merged_def expectedLocation_def holdsFileFrom_Cons)

lemma merged_File: "merged d ((n, File) # es) r = merged d es (markFile d n r)"
proof (cases r)
  case None
  show ?thesis
    unfolding None
    by (cases "n \<in> set eslintConfigFiles"; cases "n \<in> set prettierConfigFiles")
       (simp_all add: merged_def markFile_def expectedLocation_def holdsFileFrom_Cons
          freshLocation_def)
next
  case (Some l)
  show ?thesis
    unfolding Some
    by (cases "n \<in> set eslintConfigFiles"; cases "n \<in> set prettierConfigFiles")
       (simp_all add: merged_def markFile_def holdsFileFrom_Cons)
qed

lemma map_of_ensureLocation:
  "map_of (ensureLocation d s) k =
     (if k = d \<and> map_of s d = None then Some (freshLocation d) else map_of s k)"
  by (simp add: ensureLocation_def update_conv' freshLocation_def)

lemma map_of_mark:
  "map_of (AList.map_entry d f (ensureLocation d s)) k =
     (if k = d then Some (f (case map_of s d of None \<Rightarrow> freshLocation d | Some l \<Rightarrow> l))
      else map_of s k)"
  by (simp add: map_of_map_entry map_of_ensureLocation split: option.splits)

lemma walkFn_file_lookup:
  "map_of (snd (walkFn q (Some \<lparr>Name = name, IsDir = False\<rparr>) None s)) k =
     (if k = filepathDir q then markFile (filepathDir q) name (map_of s k) else map_of s k)"
  unfolding walkFn_file snd_conv
  by (cases "name \<in> set eslintConfigFiles"; cases "name \<in> set prettierConfigFiles")
     (simp_all add: map_of_mark markFile_def)


text \<open>A walk changes the records of the paths it walks over, and no other.\<close>

lemma walk_frame:
  "\<forall>k. \<not> (t = File \<and> k = filepathDir p) \<and> (\<forall>ms. k \<noteq> p @ ms) \<longrightarrow>
      map_of (snd (walk walkFn p t s)) k = map_of s k"
  "\<forall>k. k \<noteq> p \<and> (\<forall>n ms. n \<in> fst ` set es \<longrightarrow> k \<noteq> p @ n # ms) \<longrightarrow>
      map_of (snd (walkNames walkFn p es s)) k = map_of s k"
proof (induction p t s and p es s rule: walk_induct)
  case (1 p t s)
  show ?case
  proof (cases t)
    case File
    show ?thesis unfolding File by (simp add: walkFn_file_lookup)
  next
    case (Dir es)
    then show ?thesis using 1 by simp
  next
    case (Unreadable e)
    then show ?thesis by (simp add: walkFn_error)
  next
    case (NoStat e)
    then show ?thesis by (simp add: walkFn_error)
  qed
next
  case (2 p es s)
  show ?case
  proof (intro allI impI)
    fix k assume k: "\<not> (Dir es = File \<and> k = filepathDir p) \<and> (\<forall>ms. k \<noteq> p @ ms)"
    have "k \<noteq> p @ []" using k by blast
    then have k1: "k \<noteq> p" by simp
    have k2: "\<forall>n ms. n \<in> fst ` set es \<longrightarrow> k \<noteq> p @ n # ms" using k by blast
    have names: "map_of (snd (walkNames walkFn p es s)) k = map_of s k"
      using 2[of s] k1 k2 by blast
    show "map_of (snd (walk walkFn p (Dir es) s)) k = map_of s k"
    proof (cases "skippedName (base p)")
      case True
      then show ?thesis by (simp add: walkFn_dir)
    next
      case False
      then have "walk walkFn p (Dir es) s = walkNames walkFn p es s" by (simp add: walkFn_dir)
      then show ?thesis using names by simp
    qed
  qed
next
  case (3 p s)
  show ?case by simp
next
  case (4 p name t es s)
  show ?case
  proof (intro allI impI)
    fix k
    assume k: "k \<noteq> p \<and> (\<forall>n ms. n \<in> fst ` set ((name, t) # es) \<longrightarrow> k \<noteq> p @ n # ms)"
    obtain r s1 where w: "walk walkFn (p @ [name]) t s = (r, s1)"
      by (cases "walk walkFn (p @ [name]) t s")
    have a: "\<not> (t = File \<and> k = filepathDir (p @ [name]))" using k by (simp add: filepathDir_def)
    have "k \<noteq> p @ name # ms" for ms using k by simp
    then have b: "\<forall>ms. k \<noteq> (p @ [name]) @ ms" by simp
    have "map_of (snd (walk walkFn (p @ [name]) t s)) k = map_of s k"
      using 4(1)[of s] a b by blast
    then have first: "map_of s1 k = map_of s k" unfolding w snd_conv .
    have c: "\<forall>n ms. n \<in> fst ` set es \<longrightarrow> k \<noteq> p @ n # ms" using k by simp
    have rest: "map_of (snd (walkNames walkFn p es s1)) k = map_of s1 k"
      using 4(2)[of s1] k c by blast
    show "map_of (snd (walkNames walkFn p ((name, t) # es) s)) k = map_of s k"
    proof (cases "r = RNil \<or> (r = RSkipDir \<and> t \<noteq> File)")
      case True
      then have "walkNames walkFn p ((name, t) # es) s = walkNames walkFn p es s1"
        using w by (simp add: walkNames_Cons)
      then show ?thesis using rest first by simp
    next
      case False
      then have "walkNames walkFn p ((name, t) # es) s = (r, s1)"
        using w by (auto simp add: walkNames_Cons)
      then show ?thesis using first by simp
    qed
  qed
qed

text \<open>When the loop over a directory's entries runs to its end.\<close>

lemma walkNames_Cons_RNil:
  assumes "fst (walkNames walkFn p ((name, t) # es) s) = RNil"
    and "walk walkFn (p @ [name]) t s = (r, s1)"
  shows "walkNames walkFn p ((name, t) # es) s = walkNames walkFn p es s1"
    and "r = RNil \<or> (r = RSkipDir \<and> t \<noteq> File)"
proof -
  show c: "r = RNil \<or> (r = RSkipDir \<and> t \<noteq> File)"
  proof (rule ccontr)
    assume n: "\<not> (r = RNil \<or> (r = RSkipDir \<and> t \<noteq> File))"
    then have "walkNames walkFn p ((name, t) # es) s = (r, s1)"
      using assms(2) by (auto simp add: walkNames_Cons)
    then have "r = RNil" using assms(1) by simp
    then show False using n by simp
  qed
  then show "walkNames walkFn p ((name, t) # es) s = walkNames walkFn p es s1"
    using assms(2) by (simp add: walkNames_Cons)
qed

lemma walkNames_own_record:
  "fst (walkNames walkFn p es s) = RNil \<Longrightarrow>
     map_of (snd (walkNames walkFn p es s)) p = merged p es (map_of s p)"
proof (induction es arbitrary: s)
  case Nil
  show ?case by (simp add: merged_Nil)
next
  case (Cons a es)
  obtain name t where a: "a = (name, t)" by (cases a)
  obtain r s1 where w: "walk walkFn (p @ [name]) t s = (r, s1)"
    by (cases "walk walkFn (p @ [name]) t s")
  note step = walkNames_Cons_RNil[OF Cons.prems[unfolded a] w]
  have rest: "map_of (snd (walkNames walkFn p es s1)) p = merged p es (map_of s1 p)"
    using Cons.IH[of s1] Cons.prems step(1) by (simp add: a)
  have s1: "map_of s1 p = (if t = File then markFile p name (map_of s p) else map_of s p)"
  proof (cases "t = File")
    case True
    have "map_of (snd (walk walkFn (p @ [name]) File s)) p = markFile p name (map_of s p)"
      by (simp add: walkFn_file_lookup filepathDir_def)
    then show ?thesis using True w by simp
  next
    case False
    have "\<forall>ms. p \<noteq> (p @ [name]) @ ms" by simp
    then have "map_of (snd (walk walkFn (p @ [name]) t s)) p = map_of s p"
      using walk_frame(1)[where p = "p @ [name]" and t = t and s = s] False by blast
    then show ?thesis using False w by simp
  qed
  show ?case
  proof (cases "t = File")
    case True
    then show ?thesis using rest s1 step(1) by (simp add: a merged_File)
  next
    case False
    then show ?thesis using rest s1 step(1) by (simp add: a merged_other)
  qed
qed


text \<open>
  In a completed loop over entries with distinct names, the records below the entry
  \<open>n\<close> are those its own walk leaves: the entries before it and after it do not touch
  them.
\<close>

lemma walkNames_entry:
  assumes "distinct (map fst es)" and "map_of es n = Some c"
    and "fst (walkNames walkFn p es s) = RNil"
  shows "\<exists>sb. (fst (walk walkFn (p @ [n]) c sb) = RNil \<or>
               (fst (walk walkFn (p @ [n]) c sb) = RSkipDir \<and> c \<noteq> File)) \<and>
              (\<forall>ms. map_of sb (p @ n # ms) = map_of s (p @ n # ms)) \<and>
              (\<forall>ms. map_of (snd (walkNames walkFn p es s)) (p @ n # ms) =
                    map_of (snd (walk walkFn (p @ [n]) c sb)) (p @ n # ms))"
  using assms
proof (induction es arbitrary: s)
  case Nil
  then show ?case by simp
next
  case (Cons a es)
  obtain name t where a: "a = (name, t)" by (cases a)
  obtain r s1 where w: "walk walkFn (p @ [name]) t s = (r, s1)"
    by (cases "walk walkFn (p @ [name]) t s")
  note step = walkNames_Cons_RNil[OF Cons.prems(3)[unfolded a] w]
  have dist: "distinct (map fst es)" and fresh: "name \<notin> fst ` set es"
    using Cons.prems(1) by (simp_all add: a)
  show ?case
  proof (cases "n = name")
    case True
    then have c: "c = t" using Cons.prems(2) by (simp add: a)
    have after: "map_of (snd (walkNames walkFn p es s1)) (p @ n # ms) = map_of s1 (p @ n # ms)" for ms
    proof -
      have "p @ n # ms \<noteq> p" by simp
      moreover have "\<forall>n' ms'. n' \<in> fst ` set es \<longrightarrow> p @ n # ms \<noteq> p @ n' # ms'"
        using fresh True by auto
      ultimately show ?thesis
        using walk_frame(2)[where p = p and es = es and s = s1] by blast
    qed
    have "(fst (walk walkFn (p @ [n]) c s) = RNil \<or>
           (fst (walk walkFn (p @ [n]) c s) = RSkipDir \<and> c \<noteq> File)) \<and>
          (\<forall>ms. map_of s (p @ n # ms) = map_of s (p @ n # ms)) \<and>
          (\<forall>ms. map_of (snd (walkNames walkFn p (a # es) s)) (p @ n # ms) =
                map_of (snd (walk walkFn (p @ [n]) c s)) (p @ n # ms))"
      using step w after by (simp add: a c True)
    then show ?thesis by (rule exI)
  next
    case False
    then have c: "map_of es n = Some c" using Cons.prems(2) by (simp add: a)
    have rest: "fst (walkNames walkFn p es s1) = RNil"
      using Cons.prems(3) step(1) by (simp add: a)
    from Cons.IH[OF dist c rest] obtain sb where
      sb1: "fst (walk walkFn (p @ [n]) c sb) = RNil \<or>
            (fst (walk walkFn (p @ [n]) c sb) = RSkipDir \<and> c \<noteq> File)"
      and sb2: "\<forall>ms. map_of sb (p @ n # ms) = map_of s1 (p @ n # ms)"
      and sb3: "\<forall>ms. map_of (snd (walkNames walkFn p es s1)) (p @ n # ms) =
                    map_of (snd (walk walkFn (p @ [n]) c sb)) (p @ n # ms)"
      by (elim exE conjE)
    have before: "map_of s1 (p @ n # ms) = map_of s (p @ n # ms)" for ms
    proof -
      have "\<not> (t = File \<and> p @ n # ms = filepathDir (p @ [name]))" by (simp add: filepathDir_def)
      moreover have "\<forall>ms'. p @ n # ms \<noteq> (p @ [name]) @ ms'" using False by simp
      ultimately have "map_of (snd (walk walkFn (p @ [name]) t s)) (p @ n # ms) = map_of s (p @ n # ms)"
        using walk_frame(1)[where p = "p @ [name]" and t = t and s = s] by blast
      then show ?thesis unfolding w snd_conv .
    qed
    have "(fst (walk walkFn (p @ [n]) c sb) = RNil \<or>
           (fst (walk walkFn (p @ [n]) c sb) = RSkipDir \<and> c \<noteq> File)) \<and>
          (\<forall>ms. map_of sb (p @ n # ms) = map_of s (p @ n # ms)) \<and>
          (\<forall>ms. map_of (snd (walkNames walkFn p (a # es) s)) (p @ n # ms) =
                map_of (snd (walk walkFn (p @ [n]) c sb)) (p @ n # ms))"
      using sb1 sb2 sb3 before step(1) by (simp add: a)
    then show ?thesis by (rule exI)
  qed
qed

lemma subtreeAt_Cons_Some:
  assumes "subtreeAt t (n # ns) = Some d"
  obtains es c where "t = Dir es" "map_of es n = Some c" "subtreeAt c ns = Some d"
  using assms by (cases t) (auto split: option.splits)

text \<open>The record of a directory that the walk reaches, after a walk that ran to its end.\<close>

lemma walk_record:
  assumes "subtreeAt t ns = Some (Dir es)" and "distinctNames t"
    and "unskippedUpTo (base p) ns" and "fst (walk walkFn p t s) = RNil"
  shows "map_of (snd (walk walkFn p t s)) (p @ ns) = merged (p @ ns) es (map_of s (p @ ns))"
  using assms
proof (induction ns arbitrary: p t s)
  case Nil
  then have t: "t = Dir es" and ok: "\<not> skippedName (base p)" by simp_all
  have eq: "walk walkFn p (Dir es) s = walkNames walkFn p es s"
    using ok by (simp add: walkFn_dir)
  have "fst (walkNames walkFn p es s) = RNil" using Nil.prems(4) unfolding t eq .
  from walkNames_own_record[OF this] show ?case unfolding t eq by simp
next
  case (Cons n ns)
  from Cons.prems(1) obtain es0 c where
    t: "t = Dir es0" and c: "map_of es0 n = Some c" and sub: "subtreeAt c ns = Some (Dir es)"
    by (rule subtreeAt_Cons_Some)
  have ok: "\<not> skippedName (base p)" and below: "unskippedUpTo n ns"
    using Cons.prems(3) by simp_all
  have dist: "distinct (map fst es0)" using Cons.prems(2) by (simp add: t)
  have "(n, c) \<in> set es0" using c by (rule map_of_SomeD)
  then have dc: "distinctNames c" using Cons.prems(2) by (auto simp: t)
  have eq: "walk walkFn p (Dir es0) s = walkNames walkFn p es0 s"
    using ok by (simp add: walkFn_dir)
  have fin: "fst (walkNames walkFn p es0 s) = RNil" using Cons.prems(4) unfolding t eq .
  from walkNames_entry[OF dist c fin] obtain sb where
    sb1: "fst (walk walkFn (p @ [n]) c sb) = RNil \<or>
          (fst (walk walkFn (p @ [n]) c sb) = RSkipDir \<and> c \<noteq> File)"
    and sb2: "\<forall>ms. map_of sb (p @ n # ms) = map_of s (p @ n # ms)"
    and sb3: "\<forall>ms. map_of (snd (walkNames walkFn p es0 s)) (p @ n # ms) =
                  map_of (snd (walk walkFn (p @ [n]) c sb)) (p @ n # ms)"
    by (elim exE conjE)
  have cdir: "\<exists>es'. c = Dir es'" using sub by (cases ns; cases c) simp_all
  have nskip: "\<not> skippedName n" using below by (cases ns) simp_all
  have "walkResult n c \<noteq> RSkipDir"
    using cdir nskip by (auto simp: walkResult_def split: list.splits)
  then have "fst (walk walkFn (p @ [n]) c sb) \<noteq> RSkipDir"
    by (simp add: walk_result(1))
  then have r: "fst (walk walkFn (p @ [n]) c sb) = RNil" using sb1 by blast
  have below': "unskippedUpTo (base (p @ [n])) ns" using below by simp
  from Cons.IH[OF sub dc below' r]
  have "map_of (snd (walk walkFn (p @ [n]) c sb)) (p @ n # ns) =
      merged (p @ n # ns) es (map_of sb (p @ n # ns))" by simp
  then show ?case unfolding t eq using sb2 sb3 by simp
qed

lemma walkFn_distinct:
  "distinct (map fst s) \<Longrightarrow> distinct (map fst (snd (walkFn p i e s)))"
proof -
  assume d: "distinct (map fst s)"
  have step: "distinct (map fst (AList.map_entry k f (ensureLocation k l)))"
    if "distinct (map fst l)" for k f and l :: locations
    using that by (simp add: distinct_map_entry ensureLocation_def distinct_update)
  show ?thesis
  proof (cases e)
    case (Some err)
    then show ?thesis using d by (simp add: walkFn_error)
  next
    case None
    show ?thesis
    proof (cases i)
      case inone: None
      then show ?thesis using d None by (simp add: walkFn_def)
    next
      case (Some info)
      show ?thesis
      proof (cases "IsDir info")
        case True
        then show ?thesis using d None Some by (simp add: walkFn_def)
      next
        case False
        then have info: "info = \<lparr>Name = Name info, IsDir = False\<rparr>" by simp
        have "distinct (map fst (snd (walkFn p (Some \<lparr>Name = Name info, IsDir = False\<rparr>) None s)))"
          unfolding walkFn_file snd_conv using d step by simp
        then show ?thesis using None Some info by simp
      qed
    qed
  qed
qed

lemma findConfigs_distinct: "distinct (map fst (fst (findConfigs root t)))"
proof -
  have "distinct (map fst (snd (Walk walkFn root t [])))"
    by (rule Walk_preserves[where I = "\<lambda>s. distinct (map fst s)"]) (simp_all add: walkFn_distinct)
  then show ?thesis by (cases "Walk walkFn root t []") (simp add: findConfigs_def)
qed

lemma findConfigs_record:
  assumes "snd (findConfigs root t) = RNil" and "distinctNames t"
    and "subtreeAt t ns = Some (Dir es)" and "unskippedUpTo (base root) ns"
  shows "map_of (fst (findConfigs root t)) (root @ ns) = expectedLocation (root @ ns) es"
proof -
  obtain r s where w: "walk walkFn root t [] = (r, s)" by (cases "walk walkFn root t []")
  have fc: "findConfigs root t = (s, if r = RSkipDir then RNil else r)"
    using w by (simp add: findConfigs_def Walk_eq)
  have tdir: "\<exists>es'. t = Dir es'" using assms(3) by (cases ns; cases t) simp_all
  have nskip: "\<not> skippedName (base root)" using assms(4) by (cases ns) simp_all
  have "walkResult (base root) t \<noteq> RSkipDir"
    using tdir nskip by (auto simp: walkResult_def split: list.splits)
  then have "r \<noteq> RSkipDir" using walk_result(1)[of root t "[]"] w by simp
  then have "r = RNil" using assms(1) fc by simp
  then have "fst (walk walkFn root t []) = RNil" using w by simp
  from walk_record[OF assms(3) assms(2) assms(4) this]
  show ?thesis using w fc by (simp add: merged_def)
qed


lemma holdsFileFrom_iff: "holdsFileFrom names es \<longleftrightarrow> (\<exists>n \<in> set names. (n, File) \<in> set es)"
  by (simp add: holdsFileFrom_def list_ex_iff)

text \<open>
  Claim C5.  Let the scan return no error, let no directory of the tree hold a name
  twice, and take a directory of the tree that can be listed and is reached from the
  root through unskipped names only.  Its record in the scan result is decided by its
  own files alone: there is a record exactly when one of its files has a base name in
  one of the two lists, the linter flag says whether one is in the ESLint list and the
  formatter flag whether one is in the Prettier list.  So a directory with a file
  \<^verbatim>\<open>.eslintrc.json\<close> and no file from the Prettier list has linter true and formatter
  false, and a directory with \<^verbatim>\<open>.prettierrc\<close> and \<^verbatim>\<open>eslint.config.js\<close> has both flags
  true; and no key has two records.
\<close>

theorem unskipped_directory_record:
  assumes "snd (findConfigs root t) = RNil" and "distinctNames t"
    and "subtreeAt t ns = Some (Dir es)" and "unskippedUpTo (base root) ns"
  shows "map_of (fst (findConfigs root t)) (root @ ns) = expectedLocation (root @ ns) es \<and>
         distinct (map fst (fst (findConfigs root t))) \<and>
         ((''.eslintrc.json'', File) \<in> set es \<and>
          (\<forall>n \<in> set prettierConfigFiles. (n, File) \<notin> set es) \<longrightarrow>
            map_of (fst (findConfigs root t)) (root @ ns) =
              Some \<lparr>dir = root @ ns, hasEslint = True, hasPrettier = False\<rparr>) \<and>
         ((''.prettierrc'', File) \<in> set es \<and> (''eslint.config.js'', File) \<in> set es \<longrightarrow>
            map_of (fst (findConfigs root t)) (root @ ns) =
              Some \<lparr>dir = root @ ns, hasEslint = True, hasPrettier = True\<rparr>)"
proof (intro conjI impI)
  show rec: "map_of (fst (findConfigs root t)) (root @ ns) = expectedLocation (root @ ns) es"
    using assms by (rule findConfigs_record)
  show "distinct (map fst (fst (findConfigs root t)))" by (rule findConfigs_distinct)
  {
    assume a: "(''.eslintrc.json'', File) \<in> set es \<and>
               (\<forall>n \<in> set prettierConfigFiles. (n, File) \<notin> set es)"
    have "''.eslintrc.json'' \<in> set eslintConfigFiles" by (simp add: eslintConfigFiles_def)
    then have "holdsFileFrom eslintConfigFiles es" using a unfolding holdsFileFrom_iff by blast
    moreover have "\<not> holdsFileFrom prettierConfigFiles es" using a unfolding holdsFileFrom_iff by blast
    ultimately show "map_of (fst (findConfigs root t)) (root @ ns) =
        Some \<lparr>dir = root @ ns, hasEslint = True, hasPrettier = False\<rparr>"
      unfolding rec by (simp add: expectedLocation_def)
  }
  {
    assume a: "(''.prettierrc'', File) \<in> set es \<and> (''eslint.config.js'', File) \<in> set es"
    have "''eslint.config.js'' \<in> set eslintConfigFiles" by (simp add: eslintConfigFiles_def)
    then have "holdsFileFrom eslintConfigFiles es" using a unfolding holdsFileFrom_iff by blast
    moreover have "''.prettierrc'' \<in> set prettierConfigFiles" by (simp add: prettierConfigFiles_def)
    then have "holdsFileFrom prettierConfigFiles es" using a unfolding holdsFileFrom_iff by blast
    ultimately show "map_of (fst (findConfigs root t)) (root @ ns) =
        Some \<lparr>dir = root @ ns, hasEslint = True, hasPrettier = True\<rparr>"
      unfolding rec by (simp add: expectedLocation_def)
  }
qed

theorem unskipped_directory_record_witness:
  "map_of (fst (findConfigs [''home'', ''proj''] sampleTree)) [''home'', ''proj'', ''a''] =
     Some \<lparr>dir = [''home'', ''proj'', ''a''], hasEslint = True, hasPrettier = False\<rparr> \<and>
   map_of (fst (findConfigs [''home'', ''proj''] sampleTree)) [''home'', ''proj'', ''c''] =
     Some \<lparr>dir = [''home'', ''proj'', ''c''], hasEslint = True, hasPrettier = True\<rparr>"
proof (intro conjI)
  have ok: "snd (findConfigs [''home'', ''proj''] sampleTree) = RNil"
    by (simp add: findConfigs_sampleTree)
  have dn: "distinctNames sampleTree" by (simp add: sampleTree_def)
  let ?a = "[(''.eslintrc.json'', File), (''node_modules'', Dir [(''.eslintrc.json'', File)])]"
  let ?c = "[(''.prettierrc'', File), (''eslint.config.js'', File)]"
  have a: "subtreeAt sampleTree [''a''] = Some (Dir ?a)" by (simp add: sampleTree_def)
  have c: "subtreeAt sampleTree [''c''] = Some (Dir ?c)" by (simp add: sampleTree_def)
  have ua: "unskippedUpTo (base [''home'', ''proj'']) [''a'']"
    by (simp add: base_def skippedName_def)
  have uc: "unskippedUpTo (base [''home'', ''proj'']) [''c'']"
    by (simp add: base_def skippedName_def)
  have ha: "(''.eslintrc.json'', File) \<in> set ?a \<and>
            (\<forall>n \<in> set prettierConfigFiles. (n, File) \<notin> set ?a)"
    by (simp add: prettierConfigFiles_def)
  have hc: "(''.prettierrc'', File) \<in> set ?c \<and> (''eslint.config.js'', File) \<in> set ?c"
    by simp
  from unskipped_directory_record[OF ok dn a ua, THEN conjunct2, THEN conjunct2, THEN conjunct1,
      THEN mp, OF ha]
  show "map_of (fst (findConfigs [''home'', ''proj''] sampleTree)) [''home'', ''proj'', ''a''] =
     Some \<lparr>dir = [''home'', ''proj'', ''a''], hasEslint = True, hasPrettier = False\<rparr>" by simp
  from unskipped_directory_record[OF ok dn c uc, THEN conjunct2, THEN conjunct2, THEN conjunct2,
      THEN mp, OF hc]
  show "map_of (fst (findConfigs [''home'', ''proj''] sampleTree)) [''home'', ''proj'', ''c''] =
     Some \<lparr>dir = [''home'', ''proj'', ''c''], hasEslint = True, hasPrettier = True\<rparr>" by simp
qed

end
